theory Spec2Isabelle
  imports Main "HOL-Library.AList" "HOL-Library.Sublist"
begin

section \<open>Explicit lock manager\<close>

text \<open>
  The advisory lock service of the facade (\<^verbatim>\<open>ExplicitLockManager\<close>). Instants and
  durations are nanosecond counts; \<^verbatim>\<open>time.Duration\<close> is a signed 64-bit count and
  \<^verbatim>\<open>Time.Sub\<close> saturates at its bounds. The two Go maps are association lists with
  \<^verbatim>\<open>map_of\<close> as lookup; a waiter channel is a number, and closing it puts the number
  into \<open>closed\<close>.
\<close>

datatype LockType = ReadLock | WriteLock

record LockInfo =
  Path :: string
  Type :: LockType
  Owner :: string
  CreatedAt :: int
  Timeout :: int

record ExplicitLockManager =
  locks :: "(string \<times> LockInfo) list"
  lockWaiters :: "(string \<times> nat list) list"
  closed :: "nat set"

datatype lock_error =
  WriteLocked string
  | ReadLocked string
  | NoLockFound string
  | NotOwner string string

definition NewExplicitLockManager :: ExplicitLockManager where
  "NewExplicitLockManager = \<lparr>locks = [], lockWaiters = [], closed = {}\<rparr>"

definition maxDuration :: int where
  "maxDuration = 2 ^ 63 - 1"

definition minDuration :: int where
  "minDuration = - (2 ^ 63)"

definition time_Sub :: "int \<Rightarrow> int \<Rightarrow> int" where
  "time_Sub t u = max minDuration (min maxDuration (t - u))"

definition AcquireLock ::
  "string \<Rightarrow> string \<Rightarrow> LockType \<Rightarrow> int \<Rightarrow> int \<Rightarrow> ExplicitLockManager
    \<Rightarrow> (lock_error + LockInfo) \<times> ExplicitLockManager" where
  "AcquireLock path owner lockType timeout now lm =
     (let grant = (\<lambda>ty.
            let lock = \<lparr>Path = path, Type = ty, Owner = owner, CreatedAt = now,
                         Timeout = timeout\<rparr>
            in (Inr lock, lm\<lparr>locks := AList.update path lock (locks lm)\<rparr>))
      in case map_of (locks lm) path of
           Some existing \<Rightarrow>
             if Type existing = WriteLock then (Inl (WriteLocked (Owner existing)), lm)
             else if Type existing = ReadLock \<and> lockType = ReadLock then grant ReadLock
             else if Type existing = ReadLock \<and> lockType = WriteLock
               then (Inl (ReadLocked (Owner existing)), lm)
             else grant lockType
         | None \<Rightarrow> grant lockType)"

definition wake_waiters :: "string \<Rightarrow> ExplicitLockManager \<Rightarrow> ExplicitLockManager" where
  "wake_waiters path lm =
     (case map_of (lockWaiters lm) path of
        Some waiters \<Rightarrow>
          lm\<lparr>closed := closed lm \<union> set waiters,
             lockWaiters := AList.delete path (lockWaiters lm)\<rparr>
      | None \<Rightarrow> lm)"

definition ReleaseLock ::
  "string \<Rightarrow> string \<Rightarrow> ExplicitLockManager \<Rightarrow> lock_error option \<times> ExplicitLockManager" where
  "ReleaseLock path owner lm =
     (case map_of (locks lm) path of
        None \<Rightarrow> (Some (NoLockFound path), lm)
      | Some lock \<Rightarrow>
          if Owner lock \<noteq> owner then (Some (NotOwner (Owner lock) owner), lm)
          else (None, wake_waiters path (lm\<lparr>locks := AList.delete path (locks lm)\<rparr>)))"

definition expired :: "int \<Rightarrow> LockInfo \<Rightarrow> bool" where
  "expired now lock \<longleftrightarrow> Timeout lock > 0 \<and> time_Sub now (CreatedAt lock) > Timeout lock"

fun cleanup_loop ::
  "int \<Rightarrow> (string \<times> LockInfo) list \<Rightarrow> ExplicitLockManager \<Rightarrow> ExplicitLockManager" where
  "cleanup_loop now [] lm = lm"
| "cleanup_loop now ((path, lock) # rest) lm =
     cleanup_loop now rest
       (if expired now lock
        then wake_waiters path (lm\<lparr>locks := AList.delete path (locks lm)\<rparr>)
        else lm)"

definition CleanupExpiredLocks :: "int \<Rightarrow> ExplicitLockManager \<Rightarrow> ExplicitLockManager" where
  "CleanupExpiredLocks now lm = cleanup_loop now (locks lm) lm"

section \<open>Path resolution\<close>

text \<open>
  Go's \<^verbatim>\<open>path/filepath\<close> on a Unix host, where the separator is the slash and there are
  no volume names. \<^verbatim>\<open>Clean\<close>, \<^verbatim>\<open>Join\<close>, \<^verbatim>\<open>Rel\<close> and \<^verbatim>\<open>Dir\<close> are library
  functions; they are modelled on the list of path elements between separators, which is
  what the library's byte loops compute.
\<close>

datatype os_error = ENOENT | ENOTDIR | EISDIR | ENOTEMPTY | EINVAL | EIO

datatype error =
  PathEscapesRoot
  | InvalidPath
  | EmptyPath
  | HookError string
  | Os os_error
  | Msg string
  | Wrap string error

fun split_on :: "char \<Rightarrow> string \<Rightarrow> string list" where
  "split_on c [] = [[]]"
| "split_on c (x # xs) =
     (if x = c then [] # split_on c xs
      else (case split_on c xs of [] \<Rightarrow> [[x]] | y # ys \<Rightarrow> (x # y) # ys))"

fun strings_Join :: "string list \<Rightarrow> string" where
  "strings_Join [] = []"
| "strings_Join [x] = x"
| "strings_Join (x # y # ys) = x @ CHR ''/'' # strings_Join (y # ys)"

definition clean_step :: "bool \<Rightarrow> string list \<Rightarrow> string \<Rightarrow> string list" where
  "clean_step rooted out seg =
     (if seg = [] \<or> seg = ''.'' then out
      else if seg = ''..'' then
        (if out \<noteq> [] \<and> last out \<noteq> ''..'' then butlast out
         else if rooted then out
         else out @ [''..''])
      else out @ [seg])"

definition Clean :: "string \<Rightarrow> string" where
  "Clean path =
     (if path = [] then ''.''
      else
        let rooted = (hd path = CHR ''/'');
            out = foldl (clean_step rooted) [] (split_on CHR ''/'' path)
        in if rooted then CHR ''/'' # strings_Join out
           else if out = [] then ''.''
           else strings_Join out)"

definition Join :: "string list \<Rightarrow> string" where
  "Join elem =
     (case dropWhile (\<lambda>e. e = []) elem of
        [] \<Rightarrow> []
      | es \<Rightarrow> Clean (strings_Join es))"

definition elems :: "string \<Rightarrow> string list" where
  "elems p = filter (\<lambda>s. s \<noteq> []) (split_on CHR ''/'' p)"

fun strip_common :: "string list \<Rightarrow> string list \<Rightarrow> string list \<times> string list" where
  "strip_common (x # xs) (y # ys) =
     (if x = y then strip_common xs ys else (x # xs, y # ys))"
| "strip_common xs ys = (xs, ys)"

definition Rel :: "string \<Rightarrow> string \<Rightarrow> error + string" where
  "Rel basepath targpath =
     (let base = Clean basepath; targ = Clean targpath
      in if targ = base then Inr ''.''
         else
           let base = (if base = ''.'' then [] else base);
               baseSlashed = (base \<noteq> [] \<and> hd base = CHR ''/'');
               targSlashed = (targ \<noteq> [] \<and> hd targ = CHR ''/'')
           in if baseSlashed \<noteq> targSlashed
              then Inl (Msg ''Rel: can't make path relative'')
              else
                (case strip_common (elems base) (elems targ) of
                   (bs, ts) \<Rightarrow>
                     if bs \<noteq> [] \<and> ts \<noteq> [] \<and> hd bs = ''..''
                     then Inl (Msg ''Rel: can't make path relative'')
                     else if bs \<noteq> []
                     then Inr (strings_Join (replicate (length bs) ''..'' @ ts))
                     else Inr (strings_Join ts)))"

definition Dir :: "string \<Rightarrow> string" where
  "Dir path = Clean (rev (dropWhile (\<lambda>c. c \<noteq> CHR ''/'') (rev path)))"

definition fullPath :: "string \<Rightarrow> string \<Rightarrow> error + string" where
  "fullPath rootPath path =
     (let cleanPath = Clean path;
          full = Join [rootPath, cleanPath]
      in case Rel rootPath full of
           Inl e \<Rightarrow> Inl InvalidPath
         | Inr rel \<Rightarrow>
             if rel = ''..'' \<or> prefix ''../'' rel then Inl PathEscapesRoot
             else Inr full)"

definition IsValidPath :: "string \<Rightarrow> string \<Rightarrow> error + bool" where
  "IsValidPath rootPath path =
     (if path = [] then Inl EmptyPath
      else
        (case fullPath rootPath path of
           Inl e \<Rightarrow> Inl e
         | Inr full \<Rightarrow>
             (case Rel rootPath full of
                Inl e \<Rightarrow> Inl InvalidPath
              | Inr rel \<Rightarrow>
                  if rel = ''..'' \<or> prefix ''../'' rel then Inl PathEscapesRoot
                  else Inr True)))"

text \<open>
  The root of a facade is the result of \<^verbatim>\<open>filepath.Abs\<close>: absolute and clean.
\<close>

definition valid_root :: "string \<Rightarrow> bool" where
  "valid_root rootPath \<longleftrightarrow> rootPath \<noteq> [] \<and> hd rootPath = CHR ''/'' \<and> Clean rootPath = rootPath"

text \<open>
  What the specification calls resolving inside the root: the elements of the root are
  the leading elements of the joined path.
\<close>

definition inside_root :: "string \<Rightarrow> string \<Rightarrow> bool" where
  "inside_root rootPath full \<longleftrightarrow> prefix (elems rootPath) (elems full)"

text \<open>
  Lexical resolution in the specification's words: starting from a stack of directory
  names, an empty element and \<^verbatim>\<open>.\<close> change nothing, \<^verbatim>\<open>..\<close> drops the innermost name
  (at the top there is nothing to drop), and any other element is entered.
\<close>

definition walk_step :: "string list \<Rightarrow> string \<Rightarrow> string list" where
  "walk_step st seg =
     (if seg = [] \<or> seg = ''.'' then st
      else if seg = ''..'' then butlast st
      else st @ [seg])"

definition lexical_walk :: "string list \<Rightarrow> string \<Rightarrow> string list" where
  "lexical_walk start p = foldl walk_step start (split_on CHR ''/'' p)"

definition is_rooted :: "string \<Rightarrow> bool" where
  "is_rooted p \<longleftrightarrow> p \<noteq> [] \<and> hd p = CHR ''/''"

text \<open>
  Auxiliary notions for the proofs about paths: an ordinary path element, and the shape of
  the element list that cleaning a relative path keeps (leading \<^verbatim>\<open>..\<close> elements
  followed by ordinary ones).
\<close>

definition normal :: "string \<Rightarrow> bool" where
  "normal s \<longleftrightarrow> s \<noteq> [] \<and> s \<noteq> ''.'' \<and> s \<noteq> ''..'' \<and> CHR ''/'' \<notin> set s"

definition dots_or_normal :: "string list \<Rightarrow> bool" where
  "dots_or_normal acc \<longleftrightarrow> (\<forall>s\<in>set acc. s = ''..'' \<or> normal s)"

section \<open>The facade and its state\<close>

text \<open>
  The state of a \<^verbatim>\<open>SimpleFS\<close> value together with the directory tree it manages. The
  host file system is a map from absolute clean paths to nodes; permissions and I/O
  faults are not modelled, so a host operation fails only for a structural reason (a
  missing file, a directory where a file is expected). The journal file, the version
  directories and the attribute files live under the root in the code; here they are
  components of their own, keyed by the logical path where the code keys them by the
  SHA-256 of that path. Byte slices are strings.

  Every operation returns a \<open>result\<close> and the new state. \<open>Deadlock\<close> is the outcome of
  a call that blocks on a mutex which only the calling goroutine could release: the call
  never returns. The clock and the UUID generator are inputs of a call (\<open>env\<close>).
\<close>

datatype node = Directory | RegularFile string

datatype rwstate = Unlocked | WriteHeld | ReadHeld nat

datatype lock_key = FileLock string | AttrLock string

datatype 'a result = Ok 'a | Err error | Deadlock

datatype OperationType =
  OpCreateDir | OpWriteFile | OpReadFile | OpListDir | OpDeleteFile | OpDeleteDir
  | OpCopyFile | OpMoveFile | OpSetAttribute | OpGetAttribute | OpGetAllAttributes
  | OpDeleteAttribute | OpCreateVersion | OpGetVersion | OpListVersions

datatype HookType = HookTypePre | HookTypePost

record HookContext =
  ctx_Operation :: OperationType
  ctx_Path :: string
  ctx_SrcPath :: string
  ctx_Data :: string
  ctx_Mode :: nat
  ctx_Key :: string
  ctx_Value :: string

type_synonym HookFunc = "HookContext \<Rightarrow> error option"

record JournalEntry =
  je_Operation :: string
  je_Path :: string
  je_Data :: string
  je_Timestamp :: int
  je_Attributes :: "(string \<times> string) list"

record Journal =
  j_entries :: "JournalEntry list"
  j_file :: bool
  j_mu :: bool

record VersionInfo =
  VersionID :: string
  v_Path :: string
  v_CreatedAt :: int
  v_Size :: nat
  v_Attributes :: "(string \<times> string) list"
  v_Description :: string

record VersionListing =
  vl_Path :: string
  Versions :: "VersionInfo list"

record SimpleFS =
  rootPath :: string
  files :: "string \<rightharpoonup> node"
  journal :: "Journal option"
  fs_locks :: "lock_key \<rightharpoonup> rwstate"
  hooks :: "OperationType \<times> HookType \<Rightarrow> HookFunc list"
  versioning :: bool
  maxVersions :: int
  versionStore :: "string \<rightharpoonup> (string \<times> VersionInfo \<times> string) list"
  attrStore :: "string \<rightharpoonup> (string \<times> string) list"

record env =
  env_now :: int
  env_uuid :: string

subsection \<open>Sequencing\<close>

definition bind ::
  "'a result \<times> 's \<Rightarrow> ('a \<Rightarrow> 's \<Rightarrow> 'b result \<times> 's) \<Rightarrow> 'b result \<times> 's" where
  "bind m f =
     (case m of
        (Ok x, s) \<Rightarrow> f x s
      | (Err e, s) \<Rightarrow> (Err e, s)
      | (Deadlock, s) \<Rightarrow> (Deadlock, s))"

definition wrap :: "string \<Rightarrow> 'a result \<times> 's \<Rightarrow> 'a result \<times> 's" where
  "wrap msg m =
     (case m of
        (Err e, s) \<Rightarrow> (Err (Wrap msg e), s)
      | (r, s) \<Rightarrow> (r, s))"

definition check :: "error option \<Rightarrow> 's \<Rightarrow> unit result \<times> 's" where
  "check r s = (case r of Some e \<Rightarrow> (Err e, s) | None \<Rightarrow> (Ok (), s))"

subsection \<open>Per-path reader/writer locks\<close>

text \<open>
  \<^verbatim>\<open>getFileLock\<close> creates the mutex of a key on first use, so a key that the registry
  does not hold reads as unlocked and is entered by the first acquisition. Acquiring a
  mutex that is held in a conflicting mode has no result: the caller blocks.
\<close>

definition lock_state :: "(lock_key \<rightharpoonup> rwstate) \<Rightarrow> lock_key \<Rightarrow> rwstate" where
  "lock_state m k = (case m k of None \<Rightarrow> Unlocked | Some st \<Rightarrow> st)"

definition rw_Lock :: "(lock_key \<rightharpoonup> rwstate) \<Rightarrow> lock_key \<Rightarrow> (lock_key \<rightharpoonup> rwstate) option" where
  "rw_Lock m k =
     (case lock_state m k of
        Unlocked \<Rightarrow> Some (m(k \<mapsto> WriteHeld))
      | WriteHeld \<Rightarrow> None
      | ReadHeld n \<Rightarrow> None)"

definition rw_Unlock :: "(lock_key \<rightharpoonup> rwstate) \<Rightarrow> lock_key \<Rightarrow> (lock_key \<rightharpoonup> rwstate)" where
  "rw_Unlock m k = m(k \<mapsto> Unlocked)"

definition rw_RLock :: "(lock_key \<rightharpoonup> rwstate) \<Rightarrow> lock_key \<Rightarrow> (lock_key \<rightharpoonup> rwstate) option" where
  "rw_RLock m k =
     (case lock_state m k of
        Unlocked \<Rightarrow> Some (m(k \<mapsto> ReadHeld 1))
      | WriteHeld \<Rightarrow> None
      | ReadHeld n \<Rightarrow> Some (m(k \<mapsto> ReadHeld (Suc n))))"

definition rw_RUnlock :: "(lock_key \<rightharpoonup> rwstate) \<Rightarrow> lock_key \<Rightarrow> (lock_key \<rightharpoonup> rwstate)" where
  "rw_RUnlock m k =
     (case lock_state m k of
        ReadHeld (Suc (Suc n)) \<Rightarrow> m(k \<mapsto> ReadHeld (Suc n))
      | _ \<Rightarrow> m(k \<mapsto> Unlocked))"

text \<open>
  \<^verbatim>\<open>l.Lock(); defer l.Unlock()\<close> around a body: the deferred unlock runs when the body
  returns, with a value or with an error.
\<close>

definition with_Lock ::
  "lock_key \<Rightarrow> (SimpleFS \<Rightarrow> 'a result \<times> SimpleFS) \<Rightarrow> SimpleFS \<Rightarrow> 'a result \<times> SimpleFS" where
  "with_Lock k body s =
     (case rw_Lock (fs_locks s) k of
        None \<Rightarrow> (Deadlock, s)
      | Some l \<Rightarrow>
          (case body (s\<lparr>fs_locks := l\<rparr>) of
             (Deadlock, s') \<Rightarrow> (Deadlock, s')
           | (r, s') \<Rightarrow> (r, s'\<lparr>fs_locks := rw_Unlock (fs_locks s') k\<rparr>)))"

definition with_RLock ::
  "lock_key \<Rightarrow> (SimpleFS \<Rightarrow> 'a result \<times> SimpleFS) \<Rightarrow> SimpleFS \<Rightarrow> 'a result \<times> SimpleFS" where
  "with_RLock k body s =
     (case rw_RLock (fs_locks s) k of
        None \<Rightarrow> (Deadlock, s)
      | Some l \<Rightarrow>
          (case body (s\<lparr>fs_locks := l\<rparr>) of
             (Deadlock, s') \<Rightarrow> (Deadlock, s')
           | (r, s') \<Rightarrow> (r, s'\<lparr>fs_locks := rw_RUnlock (fs_locks s') k\<rparr>)))"

subsection \<open>The host file system\<close>

definition path_chain :: "string \<Rightarrow> string list" where
  "path_chain p =
     map (\<lambda>k. CHR ''/'' # strings_Join (take k (elems p))) [0 ..< Suc (length (elems p))]"

fun mkdir_chain :: "(string \<rightharpoonup> node) \<Rightarrow> string list \<Rightarrow> os_error + (string \<rightharpoonup> node)" where
  "mkdir_chain fs [] = Inr fs"
| "mkdir_chain fs (d # ds) =
     (case fs d of
        Some (RegularFile c) \<Rightarrow> Inl ENOTDIR
      | Some Directory \<Rightarrow> mkdir_chain fs ds
      | None \<Rightarrow> mkdir_chain (fs(d \<mapsto> Directory)) ds)"

definition os_MkdirAll :: "(string \<rightharpoonup> node) \<Rightarrow> string \<Rightarrow> os_error + (string \<rightharpoonup> node)" where
  "os_MkdirAll fs p = mkdir_chain fs (path_chain p)"

definition os_WriteFile :: "(string \<rightharpoonup> node) \<Rightarrow> string \<Rightarrow> string \<Rightarrow> os_error + (string \<rightharpoonup> node)" where
  "os_WriteFile fs p data =
     (case fs p of
        Some Directory \<Rightarrow> Inl EISDIR
      | Some (RegularFile c) \<Rightarrow> Inr (fs(p \<mapsto> RegularFile data))
      | None \<Rightarrow>
          (case fs (Dir p) of
             Some Directory \<Rightarrow> Inr (fs(p \<mapsto> RegularFile data))
           | Some (RegularFile c) \<Rightarrow> Inl ENOTDIR
           | None \<Rightarrow> Inl ENOENT))"

definition os_ReadFile :: "(string \<rightharpoonup> node) \<Rightarrow> string \<Rightarrow> os_error + string" where
  "os_ReadFile fs p =
     (case fs p of
        Some (RegularFile c) \<Rightarrow> Inr c
      | Some Directory \<Rightarrow> Inl EISDIR
      | None \<Rightarrow> Inl ENOENT)"

text \<open>
  \<^verbatim>\<open>os.Remove\<close> removes a file, or a directory that is empty. The facade calls it only
  in \<^verbatim>\<open>DeleteFile\<close>, on a path it has just seen to be a regular file; the model does
  not decide whether a directory is empty and lets the removal of a directory fail.
\<close>

definition os_Remove :: "(string \<rightharpoonup> node) \<Rightarrow> string \<Rightarrow> os_error + (string \<rightharpoonup> node)" where
  "os_Remove fs p =
     (case fs p of
        Some (RegularFile c) \<Rightarrow> Inr (fs(p := None))
      | Some Directory \<Rightarrow> Inl ENOTEMPTY
      | None \<Rightarrow> Inl ENOENT)"

definition os_RemoveAll :: "(string \<rightharpoonup> node) \<Rightarrow> string \<Rightarrow> (string \<rightharpoonup> node)" where
  "os_RemoveAll fs p = (\<lambda>q. if q = p \<or> prefix (p @ ''/'') q then None else fs q)"

definition os_Rename :: "(string \<rightharpoonup> node) \<Rightarrow> string \<Rightarrow> string \<Rightarrow> os_error + (string \<rightharpoonup> node)" where
  "os_Rename fs src dst =
     (case fs src of
        None \<Rightarrow> Inl ENOENT
      | Some Directory \<Rightarrow> Inl EINVAL
      | Some (RegularFile c) \<Rightarrow>
          (case fs dst of
             Some Directory \<Rightarrow> Inl EISDIR
           | _ \<Rightarrow>
               (case fs (Dir dst) of
                  Some Directory \<Rightarrow> Inr ((fs(src := None))(dst \<mapsto> RegularFile c))
                | Some (RegularFile c') \<Rightarrow> Inl ENOTDIR
                | None \<Rightarrow> Inl ENOENT)))"

subsection \<open>Hooks\<close>

fun run_hooks :: "HookFunc list \<Rightarrow> HookContext \<Rightarrow> error option" where
  "run_hooks [] ctx = None"
| "run_hooks (hook # rest) ctx =
     (case hook ctx of Some err \<Rightarrow> Some err | None \<Rightarrow> run_hooks rest ctx)"

definition executeHooks :: "HookType \<Rightarrow> HookContext \<Rightarrow> SimpleFS \<Rightarrow> error option" where
  "executeHooks typ ctx s = run_hooks (hooks s (ctx_Operation ctx, typ)) ctx"


definition mk_ctx :: "OperationType \<Rightarrow> string \<Rightarrow> HookContext" where
  "mk_ctx op path =
     \<lparr>ctx_Operation = op, ctx_Path = path, ctx_SrcPath = [], ctx_Data = [], ctx_Mode = 0,
      ctx_Key = [], ctx_Value = []\<rparr>"

subsection \<open>Journal\<close>

definition Journal_Log :: "JournalEntry \<Rightarrow> Journal \<Rightarrow> unit result \<times> Journal" where
  "Journal_Log entry j =
     (if j_mu j then (Deadlock, j)
      else if \<not> j_file j then (Err (Wrap ''failed to write to journal'' (Os EINVAL)), j)
      else (Ok (), j\<lparr>j_entries := j_entries j @ [entry]\<rparr>))"

text \<open>\<^verbatim>\<open>if fs.journal != nil { if err := fs.journal.Log(entry); err != nil { return wrapped } }\<close>\<close>

definition log_entry :: "string \<Rightarrow> JournalEntry \<Rightarrow> SimpleFS \<Rightarrow> unit result \<times> SimpleFS" where
  "log_entry msg entry s =
     (case journal s of
        None \<Rightarrow> (Ok (), s)
      | Some j \<Rightarrow>
          (case Journal_Log entry j of
             (r, j') \<Rightarrow> wrap msg (r, s\<lparr>journal := Some j'\<rparr>)))"

definition digit_char :: "nat \<Rightarrow> char" where
  "digit_char n = char_of (48 + n)"

fun format_decimal :: "nat \<Rightarrow> string" where
  "format_decimal n =
     (if n < 10 then [digit_char n]
      else format_decimal (n div 10) @ [digit_char (n mod 10)])"

declare format_decimal.simps [simp del]

definition octal_digit :: "char \<Rightarrow> bool" where
  "octal_digit c \<longleftrightarrow> 48 \<le> (of_char c :: nat) \<and> (of_char c :: nat) \<le> 55"

definition sscanf_octal :: "string \<Rightarrow> nat" where
  "sscanf_octal str =
     foldl (\<lambda>acc c. 8 * acc + (of_char c - 48)) 0 (takeWhile octal_digit str)"

subsection \<open>File operations\<close>

definition FileExists :: "string \<Rightarrow> SimpleFS \<Rightarrow> bool" where
  "FileExists path s =
     (case fullPath (rootPath s) path of
        Inl err \<Rightarrow> False
      | Inr full \<Rightarrow> files s full \<noteq> None)"

definition ReadFile :: "string \<Rightarrow> SimpleFS \<Rightarrow> string result \<times> SimpleFS" where
  "ReadFile path s =
     (case fullPath (rootPath s) path of
        Inl err \<Rightarrow> (Err err, s)
      | Inr full \<Rightarrow>
          with_RLock (FileLock full)
            (\<lambda>s. let ctx = mk_ctx OpReadFile path in
               bind (check (executeHooks HookTypePre ctx s) s) (\<lambda>u s.
                 case os_ReadFile (files s) full of
                   Inl oe \<Rightarrow> (Err (Os oe), s)
                 | Inr data \<Rightarrow>
                     bind (check (executeHooks HookTypePost ctx s) s) (\<lambda>u s. (Ok data, s))))
            s)"

subsection \<open>Attributes\<close>

definition GetAllAttributes :: "string \<Rightarrow> SimpleFS \<Rightarrow> (string \<times> string) list result \<times> SimpleFS" where
  "GetAllAttributes path s =
     (case attrStore s path of
        None \<Rightarrow> (Ok [], s)
      | Some stored \<Rightarrow>
          with_RLock (AttrLock path)
            (\<lambda>s. let ctx = mk_ctx OpGetAllAttributes path in
               bind (check (executeHooks HookTypePre ctx s) s) (\<lambda>u s.
                 case attrStore s path of
                   None \<Rightarrow> (Err (Wrap ''failed to read attributes'' (Os ENOENT)), s)
                 | Some attrs \<Rightarrow>
                     bind (check (executeHooks HookTypePost ctx s) s) (\<lambda>u s. (Ok attrs, s))))
            s)"

definition SetAttribute :: "string \<Rightarrow> string \<Rightarrow> string \<Rightarrow> env \<Rightarrow> SimpleFS \<Rightarrow> unit result \<times> SimpleFS" where
  "SetAttribute path key val e s =
     (case fullPath (rootPath s) path of
        Inl err \<Rightarrow> (Err err, s)
      | Inr full \<Rightarrow>
          if files s full = None then (Err (Msg (''file does not exist: '' @ path)), s)
          else
            with_Lock (AttrLock path)
              (\<lambda>s. let ctx = (mk_ctx OpSetAttribute path)\<lparr>ctx_Key := key, ctx_Value := val\<rparr> in
                 bind (check (executeHooks HookTypePre ctx s) s) (\<lambda>u s.
                   let attrs = AList.update key val
                         (case attrStore s path of None \<Rightarrow> [] | Some a \<Rightarrow> a) in
                   bind (log_entry ''failed to log attribute set''
                           \<lparr>je_Operation = ''setattr'', je_Path = path, je_Data = [],
                            je_Timestamp = env_now e, je_Attributes = [(key, val)]\<rparr> s) (\<lambda>u s.
                     check (executeHooks HookTypePost ctx s)
                       (s\<lparr>attrStore := (attrStore s)(path \<mapsto> attrs)\<rparr>))))
              s)"

subsection \<open>Versions\<close>

text \<open>
  The version directory of a path holds, per version identifier, the metadata and the
  content. \<^verbatim>\<open>ListVersions\<close> sorts by creation time, newest first; \<^verbatim>\<open>sort.Slice\<close>
  makes no promise about the order of versions with equal times, which the model leaves
  in the order of the store.
\<close>

definition ListVersions :: "string \<Rightarrow> SimpleFS \<Rightarrow> VersionListing result \<times> SimpleFS" where
  "ListVersions path s =
     (if \<not> versioning s then (Err (Msg ''versioning is not enabled''), s)
      else
        let ctx = mk_ctx OpListVersions path in
        bind (check (executeHooks HookTypePre ctx s) s) (\<lambda>u s.
          case versionStore s path of
            None \<Rightarrow> (Ok \<lparr>vl_Path = path, Versions = []\<rparr>, s)
          | Some stored \<Rightarrow>
              let versions = sort_key (\<lambda>v. - v_CreatedAt v) (map (\<lambda>kv. fst (snd kv)) stored) in
              bind (check (executeHooks HookTypePost ctx s) s) (\<lambda>u s.
                (Ok \<lparr>vl_Path = path, Versions = versions\<rparr>, s))))"


definition DeleteVersion :: "string \<Rightarrow> string \<Rightarrow> SimpleFS \<Rightarrow> unit result \<times> SimpleFS" where
  "DeleteVersion path versionID s =
     (if \<not> versioning s then (Err (Msg ''versioning is not enabled''), s)
      else
        (case versionStore s path of
           None \<Rightarrow> (Err (Msg ''version not found''), s)
         | Some stored \<Rightarrow>
             (case map_of stored versionID of
                None \<Rightarrow> (Err (Msg ''version not found''), s)
              | Some v \<Rightarrow>
                  (Ok (), s\<lparr>versionStore :=
                     (versionStore s)(path \<mapsto> AList.delete versionID stored)\<rparr>))))"

fun prune_loop :: "string \<Rightarrow> VersionInfo list \<Rightarrow> SimpleFS \<Rightarrow> unit result \<times> SimpleFS" where
  "prune_loop path [] s = (Ok (), s)"
| "prune_loop path (version # rest) s =
     bind (DeleteVersion path (VersionID version) s) (\<lambda>u s. prune_loop path rest s)"

definition pruneVersions :: "string \<Rightarrow> SimpleFS \<Rightarrow> unit result \<times> SimpleFS" where
  "pruneVersions path s =
     bind (ListVersions path s) (\<lambda>listing s.
       if int (length (Versions listing)) \<le> maxVersions s then (Ok (), s)
       else
         let toDelete = nat (int (length (Versions listing)) - maxVersions s) in
         prune_loop path
           (rev (drop (length (Versions listing) - toDelete) (Versions listing))) s)"

definition createVersion :: "string \<Rightarrow> env \<Rightarrow> SimpleFS \<Rightarrow> unit result \<times> SimpleFS" where
  "createVersion path e s =
     (if \<not> versioning s then (Err (Msg ''versioning is not enabled''), s)
      else
        let ctx = mk_ctx OpCreateVersion path in
        bind (check (executeHooks HookTypePre ctx s) s) (\<lambda>u s.
          case fullPath (rootPath s) path of
            Inl err \<Rightarrow> (Err err, s)
          | Inr full \<Rightarrow>
              (case files s full of
                 None \<Rightarrow> (Err (Wrap ''failed to get file info'' (Os ENOENT)), s)
               | Some Directory \<Rightarrow> (Err (Msg ''cannot version a directory''), s)
               | Some (RegularFile c) \<Rightarrow>
                   bind (wrap ''failed to read file'' (ReadFile path s)) (\<lambda>data s.
                     case GetAllAttributes path s of
                       (Deadlock, s') \<Rightarrow> (Deadlock, s')
                     | (r, s) \<Rightarrow>
                         let attrs = (case r of Ok a \<Rightarrow> a | _ \<Rightarrow> []);
                             versionID = env_uuid e;
                             versionInfo =
                               \<lparr>VersionID = versionID, v_Path = path, v_CreatedAt = env_now e,
                                v_Size = length data, v_Attributes = attrs,
                                v_Description = []\<rparr>;
                             stored = (case versionStore s path of None \<Rightarrow> [] | Some st \<Rightarrow> st);
                             s = s\<lparr>versionStore := (versionStore s)(path \<mapsto>
                                     AList.update versionID (versionInfo, data) stored)\<rparr>
                         in
                         bind (if maxVersions s > 0
                               then wrap ''failed to prune old versions'' (pruneVersions path s)
                               else (Ok (), s)) (\<lambda>u s.
                           check (executeHooks HookTypePost ctx s) s)))))"

subsection \<open>Mutations\<close>

definition WriteFileWithMode ::
  "string \<Rightarrow> string \<Rightarrow> nat \<Rightarrow> env \<Rightarrow> SimpleFS \<Rightarrow> unit result \<times> SimpleFS" where
  "WriteFileWithMode path data mode e s =
     (case fullPath (rootPath s) path of
        Inl err \<Rightarrow> (Err err, s)
      | Inr full \<Rightarrow>
          (case os_MkdirAll (files s) (Dir full) of
             Inl oe \<Rightarrow> (Err (Wrap ''failed to create parent directories'' (Os oe)), s)
           | Inr made \<Rightarrow>
               with_Lock (FileLock full)
                 (\<lambda>s. let ctx = (mk_ctx OpWriteFile path)\<lparr>ctx_Data := data, ctx_Mode := mode\<rparr> in
                    bind (check (executeHooks HookTypePre ctx s) s) (\<lambda>u s.
                    bind (if versioning s \<and> FileExists path s
                          then wrap ''failed to create version'' (createVersion path e s)
                          else (Ok (), s)) (\<lambda>u s.
                    bind (log_entry ''failed to log file write''
                            \<lparr>je_Operation = ''write'', je_Path = path, je_Data = data,
                             je_Timestamp = env_now e,
                             je_Attributes = [(''mode'', format_decimal mode)]\<rparr> s) (\<lambda>u s.
                      case os_WriteFile (files s) full data of
                        Inl oe \<Rightarrow> (Err (Os oe), s)
                      | Inr written \<Rightarrow>
                          check (executeHooks HookTypePost ctx s) (s\<lparr>files := written\<rparr>)))))
                 (s\<lparr>files := made\<rparr>)))"

definition WriteFile :: "string \<Rightarrow> string \<Rightarrow> env \<Rightarrow> SimpleFS \<Rightarrow> unit result \<times> SimpleFS" where
  "WriteFile path data e s = WriteFileWithMode path data 420 e s"

definition CreateDir :: "string \<Rightarrow> env \<Rightarrow> SimpleFS \<Rightarrow> unit result \<times> SimpleFS" where
  "CreateDir path e s =
     (case fullPath (rootPath s) path of
        Inl err \<Rightarrow> (Err err, s)
      | Inr full \<Rightarrow>
          with_Lock (FileLock (Dir full))
            (\<lambda>s. let ctx = mk_ctx OpCreateDir path in
               bind (check (executeHooks HookTypePre ctx s) s) (\<lambda>u s.
               bind (log_entry ''failed to log directory creation''
                       \<lparr>je_Operation = ''mkdir'', je_Path = path, je_Data = [],
                        je_Timestamp = env_now e, je_Attributes = []\<rparr> s) (\<lambda>u s.
                 case os_MkdirAll (files s) full of
                   Inl oe \<Rightarrow> (Err (Os oe), s)
                 | Inr made \<Rightarrow> check (executeHooks HookTypePost ctx s) (s\<lparr>files := made\<rparr>))))
            s)"

definition DeleteFile :: "string \<Rightarrow> env \<Rightarrow> SimpleFS \<Rightarrow> unit result \<times> SimpleFS" where
  "DeleteFile path e s =
     (case fullPath (rootPath s) path of
        Inl err \<Rightarrow> (Err err, s)
      | Inr full \<Rightarrow>
          (case files s full of
             None \<Rightarrow> (Err (Os ENOENT), s)
           | Some Directory \<Rightarrow>
               (Err (Msg ''cannot delete directory with DeleteFile, use DeleteDir instead''), s)
           | Some (RegularFile c) \<Rightarrow>
               with_Lock (FileLock full)
                 (with_Lock (FileLock (Dir full))
                    (\<lambda>s. let ctx = mk_ctx OpDeleteFile path in
                       bind (check (executeHooks HookTypePre ctx s) s) (\<lambda>u s.
                       bind (if versioning s
                             then wrap ''failed to create version before deletion''
                                    (createVersion path e s)
                             else (Ok (), s)) (\<lambda>u s.
                       bind (log_entry ''failed to log file deletion''
                               \<lparr>je_Operation = ''delete'', je_Path = path, je_Data = [],
                                je_Timestamp = env_now e, je_Attributes = []\<rparr> s) (\<lambda>u s.
                         case os_Remove (files s) full of
                           Inl oe \<Rightarrow> (Err (Os oe), s)
                         | Inr removed \<Rightarrow>
                             check (executeHooks HookTypePost ctx s) (s\<lparr>files := removed\<rparr>))))))
                 s))"

definition DeleteDir :: "string \<Rightarrow> env \<Rightarrow> SimpleFS \<Rightarrow> unit result \<times> SimpleFS" where
  "DeleteDir path e s =
     (case fullPath (rootPath s) path of
        Inl err \<Rightarrow> (Err err, s)
      | Inr full \<Rightarrow>
          with_Lock (FileLock full)
            (with_Lock (FileLock (Dir full))
               (\<lambda>s. let ctx = mk_ctx OpDeleteDir path in
                  bind (check (executeHooks HookTypePre ctx s) s) (\<lambda>u s.
                  bind (log_entry ''failed to log directory deletion''
                          \<lparr>je_Operation = ''delete'', je_Path = path, je_Data = [],
                           je_Timestamp = env_now e, je_Attributes = []\<rparr> s) (\<lambda>u s.
                    check (executeHooks HookTypePost ctx s)
                      (s\<lparr>files := os_RemoveAll (files s) full\<rparr>)))))
            s)"

fun set_attributes ::
  "string \<Rightarrow> (string \<times> string) list \<Rightarrow> env \<Rightarrow> SimpleFS \<Rightarrow> unit result \<times> SimpleFS" where
  "set_attributes path [] e s = (Ok (), s)"
| "set_attributes path ((k, v) # rest) e s =
     (case SetAttribute path k v e s of
        (Deadlock, s') \<Rightarrow> (Deadlock, s')
      | (r, s') \<Rightarrow> set_attributes path rest e s')"

definition MoveFile :: "string \<Rightarrow> string \<Rightarrow> env \<Rightarrow> SimpleFS \<Rightarrow> unit result \<times> SimpleFS" where
  "MoveFile src dst e s =
     (case fullPath (rootPath s) src of
        Inl err \<Rightarrow> (Err err, s)
      | Inr srcPath \<Rightarrow>
          (case fullPath (rootPath s) dst of
             Inl err \<Rightarrow> (Err err, s)
           | Inr dstPath \<Rightarrow>
               with_Lock (FileLock srcPath)
                 (with_Lock (FileLock dstPath)
                    (with_Lock (FileLock (Dir srcPath))
                       (with_Lock (FileLock (Dir dstPath))
                          (\<lambda>s. let ctx = (mk_ctx OpMoveFile dst)\<lparr>ctx_SrcPath := src\<rparr> in
                             bind (check (executeHooks HookTypePre ctx s) s) (\<lambda>u s.
                             bind (if versioning s \<and> FileExists dst s
                                   then wrap ''failed to create version of destination before move''
                                          (createVersion dst e s)
                                   else (Ok (), s)) (\<lambda>u s.
                               case os_MkdirAll (files s) (Dir dstPath) of
                                 Inl oe \<Rightarrow> (Err (Os oe), s)
                               | Inr made \<Rightarrow>
                                   (case GetAllAttributes src (s\<lparr>files := made\<rparr>) of
                                      (Deadlock, s') \<Rightarrow> (Deadlock, s')
                                    | (r, s) \<Rightarrow>
                                        let attrs = (case r of Ok a \<Rightarrow> a | _ \<Rightarrow> []) in
                                        bind (case journal s of
                                                None \<Rightarrow> (Ok (), s)
                                              | Some j \<Rightarrow>
                                                  bind (log_entry ''failed to log move source deletion''
                                                          \<lparr>je_Operation = ''delete'', je_Path = src,
                                                           je_Data = [], je_Timestamp = env_now e,
                                                           je_Attributes = []\<rparr> s) (\<lambda>u s.
                                                  bind (wrap ''failed to read source file for move''
                                                          (ReadFile src s)) (\<lambda>data s.
                                                    log_entry ''failed to log move destination write''
                                                      \<lparr>je_Operation = ''write'', je_Path = dst,
                                                       je_Data = data, je_Timestamp = env_now e,
                                                       je_Attributes = attrs\<rparr> s))) (\<lambda>u s.
                                          case os_Rename (files s) srcPath dstPath of
                                            Inl oe \<Rightarrow> (Err (Os oe), s)
                                          | Inr moved \<Rightarrow>
                                              (case set_attributes dst attrs e (s\<lparr>files := moved\<rparr>) of
                                                 (Deadlock, s') \<Rightarrow> (Deadlock, s')
                                               | (r, s) \<Rightarrow>
                                                   check (executeHooks HookTypePost ctx s) s)))))))))
                 s))"

subsection \<open>Recovery\<close>

text \<open>
  \<^verbatim>\<open>Journal.Recover\<close> keeps the last entry per path in a Go map and replays the map in
  the runtime's iteration order, which is not specified; the model replays in the order
  in which the paths first occur in the log. \<open>es i\<close> is the clock and UUID input of the
  \<open>i\<close>-th replayed entry.
\<close>

definition fileState :: "JournalEntry list \<Rightarrow> (string \<times> JournalEntry) list" where
  "fileState entries = foldl (\<lambda>m entry. AList.update (je_Path entry) entry m) [] entries"

definition je_IsDir :: "JournalEntry \<Rightarrow> bool" where
  "je_IsDir entry \<longleftrightarrow> length (je_Data entry) = 0 \<and> je_Operation entry = ''mkdir''"

definition replay_mode :: "JournalEntry \<Rightarrow> nat" where
  "replay_mode entry =
     (case map_of (je_Attributes entry) ''mode'' of
        Some modeStr \<Rightarrow> if sscanf_octal modeStr > 0 then sscanf_octal modeStr else 420
      | None \<Rightarrow> 420)"

definition replay_entry :: "string \<Rightarrow> JournalEntry \<Rightarrow> env \<Rightarrow> SimpleFS \<Rightarrow> unit result \<times> SimpleFS" where
  "replay_entry path entry e s =
     (if je_Operation entry = ''write''
        then WriteFileWithMode path (je_Data entry) (replay_mode entry) e s
      else if je_Operation entry = ''mkdir'' then CreateDir path e s
      else if je_Operation entry = ''delete''
        then (if je_IsDir entry then DeleteDir path e s else DeleteFile path e s)
      else if je_Operation entry = ''setattr''
        then set_attributes path (je_Attributes entry) e s
      else (Ok (), s))"

fun replay_all ::
  "(string \<times> JournalEntry) list \<Rightarrow> nat \<Rightarrow> (nat \<Rightarrow> env) \<Rightarrow> SimpleFS \<Rightarrow> unit result \<times> SimpleFS" where
  "replay_all [] i es s = (Ok (), s)"
| "replay_all ((path, entry) # rest) i es s =
     (case replay_entry path entry (es i) s of
        (Deadlock, s') \<Rightarrow> (Deadlock, s')
      | (r, s') \<Rightarrow> replay_all rest (Suc i) es s')"

definition Recover :: "(nat \<Rightarrow> env) \<Rightarrow> SimpleFS \<Rightarrow> unit result \<times> SimpleFS" where
  "Recover es s =
     (case journal s of
        None \<Rightarrow> (Err (Msg ''journaling is not enabled''), s)
      | Some j \<Rightarrow>
          if j_mu j then (Deadlock, s)
          else
            (case replay_all (fileState (j_entries j)) 0 es
                    (s\<lparr>journal := Some (j\<lparr>j_mu := True, j_file := False\<rparr>)\<rparr>) of
               (Deadlock, s') \<Rightarrow> (Deadlock, s')
             | (r, s') \<Rightarrow>
                 (Ok (), s'\<lparr>journal :=
                    map_option (\<lambda>j'. j'\<lparr>j_file := True, j_mu := False\<rparr>) (journal s')\<rparr>)))"

subsection \<open>Construction and stock hooks\<close>

record Options =
  EnableJournaling :: bool
  EnableVersioning :: bool
  MaxVersions :: int

text \<open>
  \<^verbatim>\<open>NewSimpleFS\<close> on a host tree, for an absolute root path and a journal file that is
  new: it creates the root directory when it is missing and opens the journal.
\<close>

definition NewSimpleFS :: "string \<Rightarrow> Options \<Rightarrow> (string \<rightharpoonup> node) \<Rightarrow> error + SimpleFS" where
  "NewSimpleFS root opts host =
     (case os_MkdirAll host (Clean root) of
        Inl oe \<Rightarrow> Inl (Wrap ''failed to create root directory'' (Os oe))
      | Inr made \<Rightarrow>
          Inr \<lparr>rootPath = Clean root,
               files = made,
               journal = (if EnableJournaling opts
                          then Some \<lparr>j_entries = [], j_file = True, j_mu = False\<rparr>
                          else None),
               fs_locks = Map.empty,
               hooks = (\<lambda>key. []),
               versioning = EnableVersioning opts,
               maxVersions = MaxVersions opts,
               versionStore = Map.empty,
               attrStore = Map.empty\<rparr>)"


subsection \<open>Conditions on a state\<close>

text \<open>
  No goroutine holds a per-path lock or the journal mutex; no registered hook returns an
  error; the directories on the way to a path exist.
\<close>

definition all_unlocked :: "SimpleFS \<Rightarrow> bool" where
  "all_unlocked s \<longleftrightarrow> (\<forall>k. lock_state (fs_locks s) k = Unlocked)"

definition hooks_pass :: "SimpleFS \<Rightarrow> bool" where
  "hooks_pass s \<longleftrightarrow> (\<forall>key ctx. run_hooks (hooks s key) ctx = None)"

definition parents_exist :: "SimpleFS \<Rightarrow> string \<Rightarrow> bool" where
  "parents_exist s full \<longleftrightarrow> (\<forall>d\<in>set (path_chain (Dir full)). files s d = Some Directory)"

definition journal_ready :: "SimpleFS \<Rightarrow> bool" where
  "journal_ready s \<longleftrightarrow> (case journal s of None \<Rightarrow> False | Some j \<Rightarrow> j_file j \<and> \<not> j_mu j)"

subsection \<open>Example values\<close>

text \<open>
  The facade that \<^verbatim>\<open>NewSimpleFS\<close> builds over \<^verbatim>\<open>/data\<close> on an empty host with
  journaling on and versioning off, a hook that always returns an error, and a reading of
  the clock and the UUID generator.
\<close>

definition data_fs :: SimpleFS where
  "data_fs =
     \<lparr>rootPath = ''/data'',
      files = [''/'' \<mapsto> Directory, ''/data'' \<mapsto> Directory],
      journal = Some \<lparr>j_entries = [], j_file = True, j_mu = False\<rparr>,
      fs_locks = Map.empty,
      hooks = (\<lambda>key. []),
      versioning = False,
      maxVersions = 2,
      versionStore = Map.empty,
      attrStore = Map.empty\<rparr>"


definition at_time :: "int \<Rightarrow> string \<Rightarrow> env" where
  "at_time t u = \<lparr>env_now = t, env_uuid = u\<rparr>"

text \<open>
  The same directory after \<^verbatim>\<open>a.txt\<close> was written with \<^verbatim>\<open>v1\<close>, under a facade with
  versioning enabled; and the directory of a facade that crashed after it had logged the
  write of \<^verbatim>\<open>a.txt\<close> and before it wrote the file.
\<close>

definition versioned_fs :: SimpleFS where
  "versioned_fs =
     data_fs\<lparr>files := (files data_fs)(''/data/a.txt'' \<mapsto> RegularFile ''v1''),
             versioning := True\<rparr>"

definition crashed_fs :: SimpleFS where
  "crashed_fs =
     data_fs\<lparr>journal := Some \<lparr>j_entries =
         [\<lparr>je_Operation = ''write'', je_Path = ''a.txt'', je_Data = ''v1'', je_Timestamp = 1,
           je_Attributes = [(''mode'', ''420'')]\<rparr>],
         j_file = True, j_mu = False\<rparr>\<rparr>"


text \<open>
  A version directory as \<^verbatim>\<open>createVersion\<close> fills it: one entry per version identifier,
  whose metadata carries that identifier.
\<close>

definition store_ok :: "(string \<times> VersionInfo \<times> string) list \<Rightarrow> bool" where
  "store_ok stored \<longleftrightarrow>
     distinct (map fst stored) \<and> (\<forall>kv\<in>set stored. VersionID (fst (snd kv)) = fst kv)"

section \<open>Properties\<close>

lemma locks_wake_waiters: "locks (wake_waiters p lm) = locks lm"
  by (simp add: wake_waiters_def split: option.splits)

lemma locks_cleanup_loop:
  "locks (cleanup_loop now es lm) =
     filter (\<lambda>kv. \<not> (\<exists>l. (fst kv, l) \<in> set es \<and> expired now l)) (locks lm)"
proof (induction es arbitrary: lm)
  case Nil
  then show ?case by simp
next
  case (Cons e es)
  obtain p l where e: "e = (p, l)" by (cases e)
  show ?case
  proof (cases "expired now l")
    case True
    have "locks (cleanup_loop now (e # es) lm) =
        filter (\<lambda>kv. \<not> (\<exists>l. (fst kv, l) \<in> set es \<and> expired now l))
          (AList.delete p (locks lm))"
      using True by (simp add: e Cons.IH locks_wake_waiters)
    also have "\<dots> = filter (\<lambda>kv. \<not> (\<exists>l. (fst kv, l) \<in> set (e # es) \<and> expired now l)) (locks lm)"
      unfolding AList.delete_eq filter_filter
      by (rule filter_cong) (use True in \<open>auto simp: e\<close>)
    finally show ?thesis .
  next
    case False
    have "locks (cleanup_loop now (e # es) lm) =
        filter (\<lambda>kv. \<not> (\<exists>l. (fst kv, l) \<in> set es \<and> expired now l)) (locks lm)"
      using False by (simp add: e Cons.IH)
    also have "\<dots> = filter (\<lambda>kv. \<not> (\<exists>l. (fst kv, l) \<in> set (e # es) \<and> expired now l)) (locks lm)"
      by (rule filter_cong) (use False in \<open>auto simp: e\<close>)
    finally show ?thesis .
  qed
qed

lemma map_of_filter_keys:
  "map_of (filter (\<lambda>kv. \<not> D (fst kv)) xs) k = (if D k then None else map_of xs k)"
  by (induction xs) auto

lemma cleanup_locks:
  assumes "distinct (map fst (locks lm))"
  shows "map_of (locks (CleanupExpiredLocks now lm)) p =
     (case map_of (locks lm) p of None \<Rightarrow> None
      | Some l \<Rightarrow> if expired now l then None else Some l)"
proof -
  have "(\<exists>l. (p, l) \<in> set (locks lm) \<and> expired now l) \<longleftrightarrow>
        (\<exists>l. map_of (locks lm) p = Some l \<and> expired now l)"
    using assms by auto
  then show ?thesis
    unfolding CleanupExpiredLocks_def locks_cleanup_loop
    using map_of_filter_keys [of "\<lambda>k. \<exists>l. (k, l) \<in> set (locks lm) \<and> expired now l" "locks lm" p]
    by (auto split: option.splits)
qed


lemma lockWaiters_wake_waiters:
  "lockWaiters (wake_waiters p lm) = AList.delete p (lockWaiters lm)"
proof (cases "map_of (lockWaiters lm) p")
  case None
  then have "p \<notin> fst ` set (lockWaiters lm)"
    by (simp add: map_of_eq_None_iff)
  then have "AList.delete p (lockWaiters lm) = lockWaiters lm"
    unfolding AList.delete_eq by (intro filter_True) (auto simp: image_iff)
  with None show ?thesis by (simp add: wake_waiters_def)
next
  case (Some ws)
  then show ?thesis by (simp add: wake_waiters_def)
qed

lemma closed_wake_waiters:
  "closed (wake_waiters p lm) =
     closed lm \<union> (case map_of (lockWaiters lm) p of None \<Rightarrow> {} | Some ws \<Rightarrow> set ws)"
  by (simp add: wake_waiters_def split: option.splits)

lemma lockWaiters_cleanup_loop:
  "map_of (lockWaiters (cleanup_loop now es lm)) k =
     (if \<exists>l. (k, l) \<in> set es \<and> expired now l then None else map_of (lockWaiters lm) k)"
proof (induction es arbitrary: lm)
  case Nil
  then show ?case by simp
next
  case (Cons e es)
  obtain p l where e: "e = (p, l)" by (cases e)
  show ?case
    by (auto simp: e Cons.IH lockWaiters_wake_waiters AList.delete_conv)
qed

lemma closed_cleanup_loop:
  "closed (cleanup_loop now es lm) =
     closed lm \<union> {c. \<exists>k l ws. (k, l) \<in> set es \<and> expired now l \<and>
                     map_of (lockWaiters lm) k = Some ws \<and> c \<in> set ws}"
proof (induction es arbitrary: lm)
  case Nil
  then show ?case by simp
next
  case (Cons e es)
  obtain p l where e: "e = (p, l)" by (cases e)
  show ?case
  proof (cases "expired now l")
    case True
    show ?thesis
      using True
      apply (simp add: e Cons.IH lockWaiters_wake_waiters closed_wake_waiters AList.delete_conv)
      apply (rule set_eqI)
      apply (cases "map_of (lockWaiters lm) p")
       apply (simp_all)
       apply (metis option.distinct(1))
      apply (metis option.inject)
      done
  next
    case False
    then show ?thesis
      by (auto simp: e Cons.IH)
  qed
qed


lemma length_update_existing:
  "map_of xs k = Some v \<Longrightarrow> length (AList.update k v' xs) = length xs"
  by (induction xs) (auto split: if_splits)

lemma distinct_locks_preserved:
  assumes "distinct (map fst (locks lm))"
  shows "distinct (map fst (locks (snd (AcquireLock path owner lockType timeout now lm))))"
    and "distinct (map fst (locks (snd (ReleaseLock path owner lm))))"
    and "distinct (map fst (locks (CleanupExpiredLocks now lm)))"
proof -
  show "distinct (map fst (locks (snd (AcquireLock path owner lockType timeout now lm))))"
    using assms by (auto simp: AcquireLock_def Let_def distinct_update split: option.splits)
  show "distinct (map fst (locks (snd (ReleaseLock path owner lm))))"
    using assms by (auto simp: ReleaseLock_def locks_wake_waiters distinct_delete split: option.splits)
  show "distinct (map fst (locks (CleanupExpiredLocks now lm)))"
    using assms by (simp add: CleanupExpiredLocks_def locks_cleanup_loop distinct_map_filter)
qed

subsection \<open>Explicit lock acquisition and release\<close>

text \<open>
  Claim C6. \<^verbatim>\<open>AcquireLock\<close> grants the lock when the table has no entry for the path.
  It fails with a conflict naming the holder when the entry is a write lock, whatever type
  is requested. When the entry is a read lock and a read lock is requested it succeeds and
  the table entry for the path is replaced by the new record (new owner and timestamp):
  the table keeps its length, so readers are not counted. It fails with a conflict when
  the entry is a read lock and a write lock is requested. A failed call leaves the manager
  as it was.
\<close>

theorem AcquireLock_rules:
  "(map_of (locks lm) path = None \<longrightarrow>
      AcquireLock path owner lockType timeout now lm =
        (Inr \<lparr>Path = path, Type = lockType, Owner = owner, CreatedAt = now, Timeout = timeout\<rparr>,
         lm\<lparr>locks := AList.update path
             \<lparr>Path = path, Type = lockType, Owner = owner, CreatedAt = now, Timeout = timeout\<rparr>
             (locks lm)\<rparr>))
   \<and> (\<forall>existing. map_of (locks lm) path = Some existing \<and> Type existing = WriteLock \<longrightarrow>
      AcquireLock path owner lockType timeout now lm = (Inl (WriteLocked (Owner existing)), lm))
   \<and> (\<forall>existing. map_of (locks lm) path = Some existing \<and> Type existing = ReadLock
        \<and> lockType = ReadLock \<longrightarrow>
      (\<exists>lm'. AcquireLock path owner lockType timeout now lm =
          (Inr \<lparr>Path = path, Type = ReadLock, Owner = owner, CreatedAt = now, Timeout = timeout\<rparr>,
           lm')
        \<and> map_of (locks lm') =
            (map_of (locks lm))(path \<mapsto>
              \<lparr>Path = path, Type = ReadLock, Owner = owner, CreatedAt = now, Timeout = timeout\<rparr>)
        \<and> length (locks lm') = length (locks lm)
        \<and> lockWaiters lm' = lockWaiters lm \<and> closed lm' = closed lm))
   \<and> (\<forall>existing. map_of (locks lm) path = Some existing \<and> Type existing = ReadLock
        \<and> lockType = WriteLock \<longrightarrow>
      AcquireLock path owner lockType timeout now lm = (Inl (ReadLocked (Owner existing)), lm))"
  by (auto simp: AcquireLock_def Let_def update_conv length_update_existing)

theorem AcquireLock_rules_witness:
  "AcquireLock ''/a'' ''alice'' WriteLock 5 100 NewExplicitLockManager =
     (Inr \<lparr>Path = ''/a'', Type = WriteLock, Owner = ''alice'', CreatedAt = 100, Timeout = 5\<rparr>,
      \<lparr>locks = [(''/a'', \<lparr>Path = ''/a'', Type = WriteLock, Owner = ''alice'', CreatedAt = 100,
                  Timeout = 5\<rparr>)], lockWaiters = [], closed = {}\<rparr>)
   \<and> AcquireLock ''/a'' ''bob'' ReadLock 0 200
       \<lparr>locks = [(''/a'', \<lparr>Path = ''/a'', Type = WriteLock, Owner = ''alice'', CreatedAt = 100,
                  Timeout = 5\<rparr>)], lockWaiters = [], closed = {}\<rparr> =
     (Inl (WriteLocked ''alice''),
       \<lparr>locks = [(''/a'', \<lparr>Path = ''/a'', Type = WriteLock, Owner = ''alice'', CreatedAt = 100,
                  Timeout = 5\<rparr>)], lockWaiters = [], closed = {}\<rparr>)
   \<and> fst (AcquireLock ''/a'' ''bob'' ReadLock 0 200
       \<lparr>locks = [(''/a'', \<lparr>Path = ''/a'', Type = ReadLock, Owner = ''alice'', CreatedAt = 100,
                  Timeout = 5\<rparr>)], lockWaiters = [], closed = {}\<rparr>) =
     Inr \<lparr>Path = ''/a'', Type = ReadLock, Owner = ''bob'', CreatedAt = 200, Timeout = 0\<rparr>
   \<and> AcquireLock ''/a'' ''bob'' WriteLock 0 200
       \<lparr>locks = [(''/a'', \<lparr>Path = ''/a'', Type = ReadLock, Owner = ''alice'', CreatedAt = 100,
                  Timeout = 5\<rparr>)], lockWaiters = [], closed = {}\<rparr> =
     (Inl (ReadLocked ''alice''),
       \<lparr>locks = [(''/a'', \<lparr>Path = ''/a'', Type = ReadLock, Owner = ''alice'', CreatedAt = 100,
                  Timeout = 5\<rparr>)], lockWaiters = [], closed = {}\<rparr>)"
  using AcquireLock_rules [of NewExplicitLockManager "''/a''" "''alice''" WriteLock 5 100]
    AcquireLock_rules [of "\<lparr>locks = [(''/a'', \<lparr>Path = ''/a'', Type = WriteLock, Owner = ''alice'', CreatedAt = 100,
                  Timeout = 5\<rparr>)], lockWaiters = [], closed = {}\<rparr>" "''/a''" "''bob''" ReadLock 0 200]
    AcquireLock_rules [of "\<lparr>locks = [(''/a'', \<lparr>Path = ''/a'', Type = ReadLock, Owner = ''alice'', CreatedAt = 100,
                  Timeout = 5\<rparr>)], lockWaiters = [], closed = {}\<rparr>" "''/a''" "''bob''" ReadLock 0 200]
    AcquireLock_rules [of "\<lparr>locks = [(''/a'', \<lparr>Path = ''/a'', Type = ReadLock, Owner = ''alice'', CreatedAt = 100,
                  Timeout = 5\<rparr>)], lockWaiters = [], closed = {}\<rparr>" "''/a''" "''bob''" WriteLock 0 200]
  by (auto simp: NewExplicitLockManager_def)


text \<open>
  Claim C7, as amended. \<^verbatim>\<open>ReleaseLock\<close> fails with a not-found error when the path
  has no entry and with a not-owner error when the recorded owner is not the caller;
  otherwise it removes the entry, closes every waiter channel registered for the path and
  drops the path's waiter list. \<^verbatim>\<open>CleanupExpiredLocks\<close> removes exactly the locks whose
  timeout is positive and smaller than their age, closes the waiter channels of those
  paths and of no other, and drops their waiter lists; a lock whose timeout is zero or
  negative is never removed. The table holds one entry per path, as a Go map does.
\<close>

theorem release_and_expiry_rules:
  assumes "distinct (map fst (locks lm))"
  shows "(map_of (locks lm) path = None \<longrightarrow>
            ReleaseLock path owner lm = (Some (NoLockFound path), lm))
     \<and> (\<forall>l. map_of (locks lm) path = Some l \<and> Owner l \<noteq> owner \<longrightarrow>
            ReleaseLock path owner lm = (Some (NotOwner (Owner l) owner), lm))
     \<and> (\<forall>l. map_of (locks lm) path = Some l \<and> Owner l = owner \<longrightarrow>
           (\<exists>lm'. ReleaseLock path owner lm = (None, lm')
              \<and> map_of (locks lm') = (map_of (locks lm))(path := None)
              \<and> map_of (lockWaiters lm') = (map_of (lockWaiters lm))(path := None)
              \<and> closed lm' = closed lm \<union>
                   (case map_of (lockWaiters lm) path of None \<Rightarrow> {} | Some ws \<Rightarrow> set ws)))
     \<and> map_of (locks (CleanupExpiredLocks now lm)) p =
           (case map_of (locks lm) p of
              None \<Rightarrow> None
            | Some l \<Rightarrow>
                if 0 < Timeout l \<and> Timeout l < time_Sub now (CreatedAt l) then None else Some l)
     \<and> map_of (lockWaiters (CleanupExpiredLocks now lm)) p =
           (if \<exists>l. map_of (locks lm) p = Some l \<and> 0 < Timeout l
                  \<and> Timeout l < time_Sub now (CreatedAt l)
            then None else map_of (lockWaiters lm) p)
     \<and> closed (CleanupExpiredLocks now lm) =
           closed lm \<union> {c. \<exists>k l ws. map_of (locks lm) k = Some l \<and> 0 < Timeout l
                  \<and> Timeout l < time_Sub now (CreatedAt l)
                  \<and> map_of (lockWaiters lm) k = Some ws \<and> c \<in> set ws}"
proof -
  have mem: "\<And>k l. (k, l) \<in> set (locks lm) \<longleftrightarrow> map_of (locks lm) k = Some l"
    using assms by auto
  have rel1: "map_of (locks lm) path = None \<longrightarrow>
            ReleaseLock path owner lm = (Some (NoLockFound path), lm)"
    by (simp add: ReleaseLock_def)
  have rel2: "\<forall>l. map_of (locks lm) path = Some l \<and> Owner l \<noteq> owner \<longrightarrow>
            ReleaseLock path owner lm = (Some (NotOwner (Owner l) owner), lm)"
    by (simp add: ReleaseLock_def)
  have rel3: "\<forall>l. map_of (locks lm) path = Some l \<and> Owner l = owner \<longrightarrow>
           (\<exists>lm'. ReleaseLock path owner lm = (None, lm')
              \<and> map_of (locks lm') = (map_of (locks lm))(path := None)
              \<and> map_of (lockWaiters lm') = (map_of (lockWaiters lm))(path := None)
              \<and> closed lm' = closed lm \<union>
                   (case map_of (lockWaiters lm) path of None \<Rightarrow> {} | Some ws \<Rightarrow> set ws))"
    by (simp add: ReleaseLock_def locks_wake_waiters lockWaiters_wake_waiters
        closed_wake_waiters delete_conv')
  have c1: "map_of (locks (CleanupExpiredLocks now lm)) p =
           (case map_of (locks lm) p of
              None \<Rightarrow> None
            | Some l \<Rightarrow>
                if 0 < Timeout l \<and> Timeout l < time_Sub now (CreatedAt l) then None else Some l)"
    using cleanup_locks [OF assms, of now p] by (simp add: expired_def cong: option.case_cong)
  have c2: "map_of (lockWaiters (CleanupExpiredLocks now lm)) p =
           (if \<exists>l. map_of (locks lm) p = Some l \<and> 0 < Timeout l
                  \<and> Timeout l < time_Sub now (CreatedAt l)
            then None else map_of (lockWaiters lm) p)"
    by (simp add: CleanupExpiredLocks_def lockWaiters_cleanup_loop mem expired_def)
  have c3: "closed (CleanupExpiredLocks now lm) =
           closed lm \<union> {c. \<exists>k l ws. map_of (locks lm) k = Some l \<and> 0 < Timeout l
                  \<and> Timeout l < time_Sub now (CreatedAt l)
                  \<and> map_of (lockWaiters lm) k = Some ws \<and> c \<in> set ws}"
    by (simp add: CleanupExpiredLocks_def closed_cleanup_loop mem expired_def)
  from rel1 rel2 rel3 c1 c2 c3 show ?thesis by blast
qed

text \<open>
  The claim as stated speaks of a nonzero timeout. A lock with timeout \<open>-1\<close> has a
  nonzero timeout that its age exceeds, and the sweep keeps it.
\<close>

theorem cleanup_negative_timeout_counterexample:
  "Timeout \<lparr>Path = ''/a'', Type = WriteLock, Owner = ''alice'', CreatedAt = 0, Timeout = - 1\<rparr> \<noteq> 0
   \<and> Timeout \<lparr>Path = ''/a'', Type = WriteLock, Owner = ''alice'', CreatedAt = 0, Timeout = - 1\<rparr>
       < time_Sub 10
          (CreatedAt \<lparr>Path = ''/a'', Type = WriteLock, Owner = ''alice'', CreatedAt = 0, Timeout = - 1\<rparr>)
   \<and> map_of (locks (CleanupExpiredLocks 10
        \<lparr>locks = [(''/a'', \<lparr>Path = ''/a'', Type = WriteLock, Owner = ''alice'', CreatedAt = 0,
                    Timeout = - 1\<rparr>)], lockWaiters = [], closed = {}\<rparr>)) ''/a''
      = Some \<lparr>Path = ''/a'', Type = WriteLock, Owner = ''alice'', CreatedAt = 0, Timeout = - 1\<rparr>"
  by (simp add: CleanupExpiredLocks_def expired_def time_Sub_def minDuration_def maxDuration_def)

theorem release_and_expiry_rules_witness:
  "ReleaseLock ''/b'' ''alice''
      \<lparr>locks = [(''/a'', \<lparr>Path = ''/a'', Type = WriteLock, Owner = ''alice'', CreatedAt = 0,
                    Timeout = 5\<rparr>)], lockWaiters = [(''/a'', [1, 2])], closed = {}\<rparr>
     = (Some (NoLockFound ''/b''),
        \<lparr>locks = [(''/a'', \<lparr>Path = ''/a'', Type = WriteLock, Owner = ''alice'', CreatedAt = 0,
                    Timeout = 5\<rparr>)], lockWaiters = [(''/a'', [1, 2])], closed = {}\<rparr>)
   \<and> fst (ReleaseLock ''/a'' ''bob''
      \<lparr>locks = [(''/a'', \<lparr>Path = ''/a'', Type = WriteLock, Owner = ''alice'', CreatedAt = 0,
                    Timeout = 5\<rparr>)], lockWaiters = [(''/a'', [1, 2])], closed = {}\<rparr>)
     = Some (NotOwner ''alice'' ''bob'')
   \<and> ReleaseLock ''/a'' ''alice''
      \<lparr>locks = [(''/a'', \<lparr>Path = ''/a'', Type = WriteLock, Owner = ''alice'', CreatedAt = 0,
                    Timeout = 5\<rparr>)], lockWaiters = [(''/a'', [1, 2])], closed = {}\<rparr>
     = (None, \<lparr>locks = [], lockWaiters = [], closed = {1, 2}\<rparr>)
   \<and> map_of (locks (CleanupExpiredLocks 10
      \<lparr>locks = [(''/a'', \<lparr>Path = ''/a'', Type = WriteLock, Owner = ''alice'', CreatedAt = 0,
                    Timeout = 5\<rparr>)], lockWaiters = [(''/a'', [1, 2])], closed = {}\<rparr>)) ''/a'' = None
   \<and> closed (CleanupExpiredLocks 10
      \<lparr>locks = [(''/a'', \<lparr>Path = ''/a'', Type = WriteLock, Owner = ''alice'', CreatedAt = 0,
                    Timeout = 5\<rparr>)], lockWaiters = [(''/a'', [1, 2])], closed = {}\<rparr>) = {1, 2}"
  using release_and_expiry_rules [of
      "\<lparr>locks = [(''/a'', \<lparr>Path = ''/a'', Type = WriteLock, Owner = ''alice'', CreatedAt = 0,
                    Timeout = 5\<rparr>)], lockWaiters = [(''/a'', [1, 2])], closed = {}\<rparr>"
      "''/b''" "''alice''" 10 "''/a''"]
    release_and_expiry_rules [of
      "\<lparr>locks = [(''/a'', \<lparr>Path = ''/a'', Type = WriteLock, Owner = ''alice'', CreatedAt = 0,
                    Timeout = 5\<rparr>)], lockWaiters = [(''/a'', [1, 2])], closed = {}\<rparr>"
      "''/a''" "''bob''" 10 "''/a''"]
    release_and_expiry_rules [of
      "\<lparr>locks = [(''/a'', \<lparr>Path = ''/a'', Type = WriteLock, Owner = ''alice'', CreatedAt = 0,
                    Timeout = 5\<rparr>)], lockWaiters = [(''/a'', [1, 2])], closed = {}\<rparr>"
      "''/a''" "''alice''" 10 "''/a''"]
  by (simp add: ReleaseLock_def wake_waiters_def CleanupExpiredLocks_def expired_def
      time_Sub_def minDuration_def maxDuration_def insert_commute)

subsection \<open>Path confinement\<close>

lemma split_on_nonempty: "split_on c xs \<noteq> []"
  by (induction xs) (auto split: list.splits)

lemma split_on_append: "split_on c (xs @ c # ys) = split_on c xs @ split_on c ys"
  by (induction xs) (auto simp: split_on_nonempty split: list.splits)

lemma split_on_no_sep: "c \<notin> set xs \<Longrightarrow> split_on c xs = [xs]"
  by (induction xs) auto

lemma split_on_sep_free: "s \<in> set (split_on c xs) \<Longrightarrow> c \<notin> set s"
  by (induction xs arbitrary: s) (auto split: if_splits list.splits)

lemma split_on_Join:
  "ss \<noteq> [] \<Longrightarrow> \<forall>s\<in>set ss. CHR ''/'' \<notin> set s \<Longrightarrow>
     split_on CHR ''/'' (strings_Join ss) = ss"
proof (induction ss rule: strings_Join.induct)
  case 1
  then show ?case by simp
next
  case (2 x)
  then show ?case by (simp add: split_on_no_sep)
next
  case (3 x y ys)
  then show ?case by (simp add: split_on_append split_on_no_sep)
qed

lemma clean_step_normal:
  "\<forall>s\<in>set out. normal s \<Longrightarrow> CHR ''/'' \<notin> set seg \<Longrightarrow>
     \<forall>s\<in>set (clean_step True out seg). normal s"
  by (auto simp: clean_step_def normal_def dest: in_set_butlastD)

lemma foldl_clean_step_normal:
  "\<forall>s\<in>set out. normal s \<Longrightarrow> \<forall>s\<in>set segs. CHR ''/'' \<notin> set s \<Longrightarrow>
     \<forall>s\<in>set (foldl (clean_step True) out segs). normal s"
proof (induction segs arbitrary: out)
  case Nil
  then show ?case by simp
next
  case (Cons a segs)
  have "\<forall>s\<in>set (clean_step True out a). normal s"
    using Cons.prems by (intro clean_step_normal) auto
  then show ?case
    using Cons.IH [of "clean_step True out a"] Cons.prems by simp
qed

lemma foldl_clean_step_id:
  "\<forall>s\<in>set segs. normal s \<Longrightarrow> foldl (clean_step rooted) out segs = out @ segs"
  by (induction segs arbitrary: out) (auto simp: clean_step_def normal_def)

lemma elems_rooted_Join:
  assumes "\<forall>s\<in>set out. normal s"
  shows "elems (CHR ''/'' # strings_Join out) = out"
proof (cases "out = []")
  case True
  then show ?thesis by (simp add: elems_def)
next
  case False
  have "split_on CHR ''/'' (strings_Join out) = out"
    using False assms by (intro split_on_Join) (auto simp: normal_def)
  moreover have "filter (\<lambda>s. s \<noteq> []) out = out"
    using assms by (intro filter_True) (auto simp: normal_def)
  ultimately show ?thesis by (simp add: elems_def)
qed

lemma clean_fold_rooted_Join:
  assumes "\<forall>s\<in>set out. normal s"
  shows "foldl (clean_step True) acc (split_on CHR ''/'' (CHR ''/'' # strings_Join out)) = acc @ out"
proof (cases "out = []")
  case True
  then show ?thesis by (simp add: clean_step_def)
next
  case False
  have "split_on CHR ''/'' (strings_Join out) = out"
    using False assms by (intro split_on_Join) (auto simp: normal_def)
  then show ?thesis
    using assms by (simp add: foldl_clean_step_id) (simp add: clean_step_def)
qed

lemma Clean_rooted:
  "p \<noteq> [] \<Longrightarrow> hd p = CHR ''/'' \<Longrightarrow>
     Clean p = CHR ''/'' # strings_Join (foldl (clean_step True) [] (split_on CHR ''/'' p))"
  by (simp add: Clean_def Let_def)

lemma Clean_rooted_Join:
  assumes "\<forall>s\<in>set out. normal s"
  shows "Clean (CHR ''/'' # strings_Join out) = CHR ''/'' # strings_Join out"
  using clean_fold_rooted_Join [OF assms, of "[]"] by (simp add: Clean_rooted)

lemma valid_root_elems:
  assumes "valid_root r"
  shows "(\<forall>s\<in>set (elems r). normal s) \<and> r = CHR ''/'' # strings_Join (elems r)"
proof -
  let ?out = "foldl (clean_step True) [] (split_on CHR ''/'' r)"
  have r: "r = CHR ''/'' # strings_Join ?out"
    using assms Clean_rooted [of r] by (simp add: valid_root_def)
  have n: "\<forall>s\<in>set ?out. normal s"
    by (intro foldl_clean_step_normal) (auto dest: split_on_sep_free)
  have "elems r = ?out"
    using elems_rooted_Join [OF n] r by simp
  with r n show ?thesis by simp
qed

lemma Join_root:
  assumes "valid_root r"
  shows "Join [r, c] =
     CHR ''/'' # strings_Join (foldl (clean_step True) (elems r) (split_on CHR ''/'' c))"
proof -
  from valid_root_elems [OF assms]
  have n: "\<forall>s\<in>set (elems r). normal s" and r: "r = CHR ''/'' # strings_Join (elems r)"
    by simp_all
  have ne: "r \<noteq> []" and hd: "hd r = CHR ''/''"
    using assms by (simp_all add: valid_root_def)
  have "Join [r, c] = Clean (r @ CHR ''/'' # c)"
    using ne by (simp add: Join_def)
  also have "\<dots> = CHR ''/'' # strings_Join
      (foldl (clean_step True) [] (split_on CHR ''/'' (r @ CHR ''/'' # c)))"
    using ne hd by (intro Clean_rooted) (auto simp: hd_append)
  also have "foldl (clean_step True) [] (split_on CHR ''/'' (r @ CHR ''/'' # c)) =
      foldl (clean_step True) (foldl (clean_step True) [] (split_on CHR ''/'' r))
        (split_on CHR ''/'' c)"
    by (simp add: split_on_append)
  also have "foldl (clean_step True) [] (split_on CHR ''/'' r) = elems r"
    using clean_fold_rooted_Join [OF n, of "[]"] r by simp
  finally show ?thesis .
qed


lemma strip_common_decomp:
  "strip_common xs ys = (bs, ts) \<Longrightarrow> \<exists>cs. xs = cs @ bs \<and> ys = cs @ ts"
proof (induction xs ys rule: strip_common.induct)
  case (1 x xs y ys)
  show ?case
  proof (cases "x = y")
    case True
    with 1 obtain cs where "xs = cs @ bs" "ys = cs @ ts" by auto
    then have "x # xs = (x # cs) @ bs \<and> y # ys = (x # cs) @ ts"
      using True by simp
    then show ?thesis by blast
  next
    case False
    with 1 show ?thesis by auto
  qed
qed auto

lemma strip_common_prefix:
  "fst (strip_common xs ys) = [] \<longleftrightarrow> prefix xs ys"
  by (induction xs ys rule: strip_common.induct) auto

lemma hd_split_dotdot:
  "w = ''..'' \<or> prefix ''../'' w \<Longrightarrow> hd (split_on CHR ''/'' w) = ''..''"
proof (erule disjE)
  assume "w = ''..''"
  then show ?thesis by simp
next
  assume "prefix ''../'' w"
  then obtain rest where "w = ''..'' @ CHR ''/'' # rest"
    by (auto simp: prefix_def)
  then have "split_on CHR ''/'' w = split_on CHR ''/'' ''..'' @ split_on CHR ''/'' rest"
    by (simp only: split_on_append)
  then show ?thesis by simp
qed

lemma Join_normal_not_dotdot:
  assumes "\<forall>s\<in>set ts. normal s"
  shows "\<not> (strings_Join ts = ''..'' \<or> prefix ''../'' (strings_Join ts))"
proof (cases "ts = []")
  case True
  then show ?thesis by (simp add: prefix_def)
next
  case False
  have "split_on CHR ''/'' (strings_Join ts) = ts"
    using False assms by (intro split_on_Join) (auto simp: normal_def)
  then have "hd (split_on CHR ''/'' (strings_Join ts)) = hd ts" by simp
  moreover have "hd ts \<noteq> ''..''"
    using False assms by (cases ts) (auto simp: normal_def)
  ultimately show ?thesis
    using hd_split_dotdot [of "strings_Join ts"] by auto
qed

lemma Join_dotdot_first:
  "strings_Join (''..'' # rest) = ''..'' \<or> prefix ''../'' (strings_Join (''..'' # rest))"
  by (cases rest) (auto simp: prefix_def)

lemma prefix_Join_append:
  "prefix (CHR ''/'' # strings_Join xs) (CHR ''/'' # strings_Join (xs @ ts))"
proof (induction xs rule: strings_Join.induct)
  case 1
  then show ?case by simp
next
  case (2 x)
  then show ?case by (cases ts) auto
next
  case (3 x y ys)
  then show ?case by simp
qed

lemma Rel_root:
  assumes o1: "\<forall>s\<in>set o1. normal s" and o2: "\<forall>s\<in>set o2. normal s"
  shows "\<exists>rel. Rel (CHR ''/'' # strings_Join o1) (CHR ''/'' # strings_Join o2) = Inr rel
           \<and> ((rel = ''..'' \<or> prefix ''../'' rel) \<longleftrightarrow> \<not> prefix o1 o2)"
proof -
  let ?b = "CHR ''/'' # strings_Join o1" and ?t = "CHR ''/'' # strings_Join o2"
  have cb: "Clean ?b = ?b" and ct: "Clean ?t = ?t"
    using Clean_rooted_Join o1 o2 by simp_all
  have eb: "elems ?b = o1" and et: "elems ?t = o2"
    using elems_rooted_Join o1 o2 by simp_all
  show ?thesis
  proof (cases "?t = ?b")
    case True
    then have "o1 = o2" using eb et by metis
    with True show ?thesis
      by (simp add: Rel_def cb ct prefix_def)
  next
    case False
    obtain bs ts where st: "strip_common o1 o2 = (bs, ts)"
      by (cases "strip_common o1 o2")
    from strip_common_decomp [OF st] obtain cs where cs: "o1 = cs @ bs" "o2 = cs @ ts"
      by blast
    have nb: "\<forall>s\<in>set bs. normal s" and nt: "\<forall>s\<in>set ts. normal s"
      using o1 o2 cs by auto
    have pre: "bs = [] \<longleftrightarrow> prefix o1 o2"
      using strip_common_prefix [of o1 o2] st by simp
    show ?thesis
    proof (cases "bs = []")
      case True
      have "Rel ?b ?t = Inr (strings_Join ts)"
        using False True st by (simp add: Rel_def cb ct eb et)
      then show ?thesis
        using Join_normal_not_dotdot [OF nt] pre True by simp
    next
      case bne: False
      then obtain b bs' where bs: "bs = b # bs'" by (cases bs) auto
      then have "b \<noteq> ''..''" using nb by (auto simp: normal_def)
      then have "Rel ?b ?t = Inr (strings_Join (replicate (length bs) ''..'' @ ts))"
        using False bs st by (simp add: Rel_def cb ct eb et)
      moreover have "replicate (length bs) ''..'' @ ts = ''..'' # (replicate (length bs') ''..'' @ ts)"
        using bs by simp
      ultimately show ?thesis
        using Join_dotdot_first [of "replicate (length bs') ''..'' @ ts"] pre bne by simp
    qed
  qed
qed

lemma walk_step_normal:
  assumes "\<forall>s\<in>set st. normal s" and "CHR ''/'' \<notin> set seg"
  shows "clean_step True st seg = walk_step st seg"
proof (cases "seg = ''..''")
  case True
  show ?thesis
  proof (cases st rule: rev_cases)
    case Nil
    then show ?thesis using True by (simp add: clean_step_def walk_step_def)
  next
    case (snoc ys y)
    then have "y \<noteq> ''..''" using assms(1) by (simp add: normal_def)
    then show ?thesis using True snoc by (simp add: clean_step_def walk_step_def)
  qed
next
  case False
  then show ?thesis by (simp add: clean_step_def walk_step_def)
qed

lemma foldl_walk_step_normal:
  "\<forall>s\<in>set st. normal s \<Longrightarrow> \<forall>s\<in>set segs. CHR ''/'' \<notin> set s \<Longrightarrow>
     foldl (clean_step True) st segs = foldl walk_step st segs"
proof (induction segs arbitrary: st)
  case Nil
  then show ?case by simp
next
  case (Cons a segs)
  have eq: "clean_step True st a = walk_step st a"
    using Cons.prems by (intro walk_step_normal) auto
  have "\<forall>s\<in>set (clean_step True st a). normal s"
    using Cons.prems by (intro clean_step_normal) auto
  then show ?case
    using Cons.IH [of "clean_step True st a"] Cons.prems eq by simp
qed

lemma clean_step_rel_shape:
  assumes "dots_or_normal acc" and "CHR ''/'' \<notin> set seg"
  shows "dots_or_normal (clean_step False acc seg)"
proof (cases "seg = [] \<or> seg = ''.''")
  case True
  then show ?thesis using assms by (simp add: clean_step_def)
next
  case ne: False
  show ?thesis
  proof (cases "seg = ''..''")
    case True
    have "dots_or_normal (butlast acc)"
      using assms(1) by (auto simp: dots_or_normal_def dest: in_set_butlastD)
    moreover have "dots_or_normal (acc @ [''..''])"
      using assms(1) by (simp add: dots_or_normal_def)
    ultimately show ?thesis using True by (simp add: clean_step_def)
  next
    case False
    then have "normal seg" using ne assms(2) by (simp add: normal_def)
    then have "dots_or_normal (acc @ [seg])"
      using assms(1) by (simp add: dots_or_normal_def)
    then show ?thesis using False ne by (simp add: clean_step_def)
  qed
qed

lemma clean_step_compose:
  assumes "dots_or_normal acc" and "CHR ''/'' \<notin> set seg"
  shows "foldl (clean_step True) S (clean_step False acc seg) =
         clean_step True (foldl (clean_step True) S acc) seg"
proof (cases "seg = ''..'' \<and> acc \<noteq> [] \<and> last acc \<noteq> ''..''")
  case True
  then obtain acc' l where acc: "acc = acc' @ [l]" and l: "l \<noteq> ''..''"
    by (cases acc rule: rev_cases) auto
  then have nl: "normal l" using assms(1) by (auto simp: dots_or_normal_def)
  have "foldl (clean_step True) S acc = foldl (clean_step True) S acc' @ [l]"
    using nl by (simp add: acc clean_step_def normal_def)
  then show ?thesis
    using True l by (simp add: acc clean_step_def)
next
  case False
  show ?thesis
  proof (cases "seg = ''..''")
    case True
    with False have "acc = [] \<or> last acc = ''..''" by blast
    then have "clean_step False acc seg = acc @ [seg]"
      using True by (auto simp: clean_step_def)
    then show ?thesis by simp
  next
    case nd: False
    show ?thesis
    proof (cases "seg = [] \<or> seg = ''.''")
      case True
      then show ?thesis by (auto simp: clean_step_def)
    next
      case False
      then have "clean_step False acc seg = acc @ [seg]"
        using nd by (simp add: clean_step_def)
      then show ?thesis by simp
    qed
  qed
qed

lemma foldl_clean_compose:
  "dots_or_normal acc \<Longrightarrow> \<forall>s\<in>set segs. CHR ''/'' \<notin> set s \<Longrightarrow>
     foldl (clean_step True) S (foldl (clean_step False) acc segs) =
     foldl (clean_step True) (foldl (clean_step True) S acc) segs"
proof (induction segs arbitrary: acc)
  case Nil
  then show ?case by simp
next
  case (Cons a segs)
  have sh: "dots_or_normal (clean_step False acc a)"
    using Cons.prems by (intro clean_step_rel_shape) auto
  have "foldl (clean_step True) S (foldl (clean_step False) acc (a # segs)) =
        foldl (clean_step True) (foldl (clean_step True) S (clean_step False acc a)) segs"
    using Cons.IH [OF sh] Cons.prems by simp
  also have "foldl (clean_step True) S (clean_step False acc a) =
        clean_step True (foldl (clean_step True) S acc) a"
    using Cons.prems by (intro clean_step_compose) auto
  finally show ?case by simp
qed

lemma foldl_clean_shape:
  "dots_or_normal acc \<Longrightarrow> \<forall>s\<in>set segs. CHR ''/'' \<notin> set s \<Longrightarrow>
     dots_or_normal (foldl (clean_step False) acc segs)"
proof (induction segs arbitrary: acc)
  case Nil
  then show ?case by simp
next
  case (Cons a segs)
  have "dots_or_normal (clean_step False acc a)"
    using Cons.prems by (intro clean_step_rel_shape) auto
  then show ?case using Cons.IH Cons.prems by simp
qed

lemma Clean_relative:
  "p \<noteq> [] \<Longrightarrow> hd p \<noteq> CHR ''/'' \<Longrightarrow>
     Clean p = (if foldl (clean_step False) [] (split_on CHR ''/'' p) = [] then ''.''
                else strings_Join (foldl (clean_step False) [] (split_on CHR ''/'' p)))"
  by (simp add: Clean_def Let_def)

lemma clean_fold_dot: "foldl (clean_step True) S (split_on CHR ''/'' ''.'') = S"
  by (simp add: clean_step_def)

lemma clean_fold_empty: "foldl (clean_step True) S (split_on CHR ''/'' []) = S"
  by (simp add: clean_step_def)

lemma clean_fold_Clean_relative:
  assumes "\<not> is_rooted p"
  shows "foldl (clean_step True) S (split_on CHR ''/'' (Clean p)) =
         foldl (clean_step True) S (split_on CHR ''/'' p)"
proof (cases "p = []")
  case True
  have "Clean [] = ''.''" by (simp add: Clean_def)
  then show ?thesis
    unfolding True by (simp only: clean_fold_dot clean_fold_empty)
next
  case False
  define out where "out = foldl (clean_step False) [] (split_on CHR ''/'' p)"
  have hd: "hd p \<noteq> CHR ''/''"
    using assms False by (simp add: is_rooted_def)
  have C: "Clean p = (if out = [] then ''.'' else strings_Join out)"
    unfolding out_def by (rule Clean_relative [OF False hd])
  have sf: "\<forall>s\<in>set (split_on CHR ''/'' p). CHR ''/'' \<notin> set s"
    by (auto dest: split_on_sep_free)
  have d0: "dots_or_normal []" by (simp add: dots_or_normal_def)
  have comp: "foldl (clean_step True) S out = foldl (clean_step True) S (split_on CHR ''/'' p)"
    unfolding out_def using foldl_clean_compose [OF d0 sf, of S] by simp
  show ?thesis
  proof (cases "out = []")
    case True
    have "Clean p = ''.''" using C True by simp
    then have "foldl (clean_step True) S (split_on CHR ''/'' (Clean p)) = S"
      by (simp only: clean_fold_dot)
    also have "S = foldl (clean_step True) S out"
      using True by simp
    finally show ?thesis using comp by (simp only:)
  next
    case ne: False
    have "dots_or_normal out"
      unfolding out_def by (rule foldl_clean_shape [OF d0 sf])
    have "\<forall>s\<in>set out. CHR ''/'' \<notin> set s"
    proof
      fix s assume "s \<in> set out"
      with \<open>dots_or_normal out\<close> have "s = ''..'' \<or> normal s"
        by (simp add: dots_or_normal_def)
      then show "CHR ''/'' \<notin> set s"
      proof
        assume "s = ''..''"
        then show ?thesis by simp
      next
        assume "normal s"
        then show ?thesis by (simp add: normal_def)
      qed
    qed
    then have "split_on CHR ''/'' (strings_Join out) = out"
      using ne by (intro split_on_Join)
    moreover have "Clean p = strings_Join out"
      using C ne by (simp only: if_False)
    ultimately show ?thesis using comp by (simp only:)
  qed
qed

lemma elems_Join_root:
  assumes "valid_root r"
  shows "elems (Join [r, Clean p]) =
     (if is_rooted p then elems r @ lexical_walk [] p else lexical_walk (elems r) p)"
proof -
  from valid_root_elems [OF assms]
  have n: "\<forall>s\<in>set (elems r). normal s" by simp
  have sf: "\<And>q. \<forall>s\<in>set (split_on CHR ''/'' q). CHR ''/'' \<notin> set s"
    by (auto dest: split_on_sep_free)
  have J: "Join [r, Clean p] =
     CHR ''/'' # strings_Join (foldl (clean_step True) (elems r) (split_on CHR ''/'' (Clean p)))"
    by (rule Join_root [OF assms])
  have nJ: "\<forall>s\<in>set (foldl (clean_step True) (elems r) (split_on CHR ''/'' (Clean p))). normal s"
    using n sf by (intro foldl_clean_step_normal) auto
  have eJ: "elems (Join [r, Clean p]) =
      foldl (clean_step True) (elems r) (split_on CHR ''/'' (Clean p))"
    using elems_rooted_Join [OF nJ] J by simp
  show ?thesis
  proof (cases "is_rooted p")
    case True
    let ?o = "foldl (clean_step True) [] (split_on CHR ''/'' p)"
    have no: "\<forall>s\<in>set ?o. normal s"
      using sf by (intro foldl_clean_step_normal) auto
    have "Clean p = CHR ''/'' # strings_Join ?o"
      using True by (intro Clean_rooted) (auto simp: is_rooted_def)
    then have "foldl (clean_step True) (elems r) (split_on CHR ''/'' (Clean p)) = elems r @ ?o"
      using clean_fold_rooted_Join [OF no, of "elems r"] by simp
    moreover have "?o = lexical_walk [] p"
      unfolding lexical_walk_def using sf by (intro foldl_walk_step_normal) auto
    ultimately show ?thesis using eJ True by simp
  next
    case False
    have "foldl (clean_step True) (elems r) (split_on CHR ''/'' (Clean p)) =
          foldl (clean_step True) (elems r) (split_on CHR ''/'' p)"
      by (rule clean_fold_Clean_relative [OF False])
    also have "\<dots> = lexical_walk (elems r) p"
      unfolding lexical_walk_def using n sf by (intro foldl_walk_step_normal) auto
    finally show ?thesis using eJ False by simp
  qed
qed

lemma fullPath_cases:
  assumes "valid_root r"
  shows "\<exists>rel. Rel r (Join [r, Clean p]) = Inr rel
     \<and> ((rel = ''..'' \<or> prefix ''../'' rel) \<longleftrightarrow> \<not> inside_root r (Join [r, Clean p]))
     \<and> fullPath r p = (if rel = ''..'' \<or> prefix ''../'' rel then Inl PathEscapesRoot
                       else Inr (Join [r, Clean p]))
     \<and> (inside_root r (Join [r, Clean p]) \<longrightarrow>
           prefix r (Join [r, Clean p]) \<and> is_rooted (Join [r, Clean p]))"
proof -
  let ?J = "Join [r, Clean p]"
  let ?o = "foldl (clean_step True) (elems r) (split_on CHR ''/'' (Clean p))"
  from valid_root_elems [OF assms]
  have n: "\<forall>s\<in>set (elems r). normal s" and r: "r = CHR ''/'' # strings_Join (elems r)"
    by simp_all
  have J: "?J = CHR ''/'' # strings_Join ?o"
    by (rule Join_root [OF assms])
  have no: "\<forall>s\<in>set ?o. normal s"
    using n by (intro foldl_clean_step_normal) (auto dest: split_on_sep_free)
  have eJ: "elems ?J = ?o"
    using elems_rooted_Join [OF no] J by simp
  from Rel_root [OF n no] obtain rel where
    rel: "Rel (CHR ''/'' # strings_Join (elems r)) (CHR ''/'' # strings_Join ?o) = Inr rel"
    and bad: "(rel = ''..'' \<or> prefix ''../'' rel) \<longleftrightarrow> \<not> prefix (elems r) ?o"
    by blast
  have R: "Rel r ?J = Inr rel"
    using rel r J by simp
  have b: "(rel = ''..'' \<or> prefix ''../'' rel) \<longleftrightarrow> \<not> inside_root r ?J"
    using bad eJ by (simp add: inside_root_def)
  have f: "fullPath r p = (if rel = ''..'' \<or> prefix ''../'' rel then Inl PathEscapesRoot
                       else Inr ?J)"
    using R by (simp add: fullPath_def Let_def)
  have pre: "inside_root r ?J \<longrightarrow> prefix r ?J \<and> is_rooted ?J"
  proof
    assume "inside_root r ?J"
    then obtain ts where ts: "?o = elems r @ ts"
      using eJ by (auto simp: inside_root_def prefix_def)
    have "prefix (CHR ''/'' # strings_Join (elems r)) (CHR ''/'' # strings_Join (elems r @ ts))"
      by (rule prefix_Join_append)
    then have "prefix r ?J"
      using r J ts by simp
    moreover have "is_rooted ?J"
      using J by (simp add: is_rooted_def)
    ultimately show "prefix r ?J \<and> is_rooted ?J" ..
  qed
  from R b f pre show ?thesis by blast
qed

text \<open>
  Claim C1. For a root as \<^verbatim>\<open>NewSimpleFS\<close> stores it (absolute and clean), resolution
  cleans the input lexically and joins it with the root. It rejects the input with the
  path-escapes-root error exactly when the joined path lies outside the root, which is
  exactly when the relative path from the root to the joined path is \<^verbatim>\<open>..\<close> or begins
  with \<^verbatim>\<open>../\<close>. Every input whose joined path lies inside the root is accepted, and
  every accepted result is an absolute path that has the root as a textual prefix.
  \<^verbatim>\<open>IsValidPath\<close> reports the path-escapes-root error for the same inputs as
  \<^verbatim>\<open>fullPath\<close>, and accepts the non-empty inputs that stay inside. The joined path is
  the lexical resolution of the input: a relative input is walked from the root's own
  directory stack, so its \<^verbatim>\<open>..\<close> elements can leave the root, while an input that
  begins with a slash is walked from an empty stack and then placed under the root.
\<close>

theorem path_confinement:
  assumes "valid_root root"
  shows "(fullPath root path = Inl PathEscapesRoot \<longleftrightarrow>
            \<not> inside_root root (Join [root, Clean path]))
    \<and> (inside_root root (Join [root, Clean path]) \<longrightarrow>
            fullPath root path = Inr (Join [root, Clean path]))
    \<and> (\<forall>full. fullPath root path = Inr full \<longrightarrow>
            prefix root full \<and> is_rooted full \<and> inside_root root full)
    \<and> (fullPath root path = Inl PathEscapesRoot \<longleftrightarrow>
          (\<exists>rel. Rel root (Join [root, Clean path]) = Inr rel
             \<and> (rel = ''..'' \<or> prefix ''../'' rel)))
    \<and> (IsValidPath root path = Inl PathEscapesRoot \<longleftrightarrow>
          fullPath root path = Inl PathEscapesRoot)
    \<and> (IsValidPath root path = Inr True \<longleftrightarrow>
          path \<noteq> [] \<and> inside_root root (Join [root, Clean path]))
    \<and> elems (Join [root, Clean path]) =
          (if is_rooted path then elems root @ lexical_walk [] path
           else lexical_walk (elems root) path)"
proof -
  let ?J = "Join [root, Clean path]"
  from fullPath_cases [OF assms, of path] obtain rel where
    R: "Rel root ?J = Inr rel"
    and b: "(rel = ''..'' \<or> prefix ''../'' rel) \<longleftrightarrow> \<not> inside_root root ?J"
    and f: "fullPath root path =
        (if rel = ''..'' \<or> prefix ''../'' rel then Inl PathEscapesRoot else Inr ?J)"
    and pre: "inside_root root ?J \<longrightarrow> prefix root ?J \<and> is_rooted ?J"
    by blast
  have c1: "fullPath root path = Inl PathEscapesRoot \<longleftrightarrow> \<not> inside_root root ?J"
    using f b by (cases "inside_root root ?J") simp_all
  have c2: "inside_root root ?J \<longrightarrow> fullPath root path = Inr ?J"
    using f b by simp
  have c3: "\<forall>full. fullPath root path = Inr full \<longrightarrow>
            prefix root full \<and> is_rooted full \<and> inside_root root full"
    using f b pre by (cases "inside_root root ?J") auto
  have c4: "fullPath root path = Inl PathEscapesRoot \<longleftrightarrow>
          (\<exists>rel. Rel root ?J = Inr rel \<and> (rel = ''..'' \<or> prefix ''../'' rel))"
    using f R b by (cases "inside_root root ?J") auto
  have e: "path = [] \<Longrightarrow> inside_root root ?J"
  proof -
    assume "path = []"
    then have "elems ?J = elems root"
      using elems_Join_root [OF assms, of path]
      by (simp add: is_rooted_def lexical_walk_def walk_step_def)
    then show ?thesis by (simp add: inside_root_def)
  qed
  have c5: "IsValidPath root path = Inl PathEscapesRoot \<longleftrightarrow>
          fullPath root path = Inl PathEscapesRoot"
  proof (cases "path = []")
    case True
    then show ?thesis using e c1 by (simp add: IsValidPath_def)
  next
    case False
    then show ?thesis
      using f R b by (cases "inside_root root ?J") (simp_all add: IsValidPath_def)
  qed
  have c6: "IsValidPath root path = Inr True \<longleftrightarrow>
          path \<noteq> [] \<and> inside_root root ?J"
  proof (cases "path = []")
    case True
    then show ?thesis by (simp add: IsValidPath_def)
  next
    case False
    then show ?thesis
      using f R b by (cases "inside_root root ?J") (simp_all add: IsValidPath_def)
  qed
  have c7: "elems ?J =
          (if is_rooted path then elems root @ lexical_walk [] path
           else lexical_walk (elems root) path)"
    by (rule elems_Join_root [OF assms])
  from c1 c2 c3 c4 c5 c6 c7 show ?thesis by blast
qed

theorem path_confinement_witness:
  "valid_root ''/data''
   \<and> \<not> inside_root ''/data'' (Join [''/data'', Clean ''docs/../../etc/passwd''])
   \<and> fullPath ''/data'' ''docs/../../etc/passwd'' = Inl PathEscapesRoot
   \<and> IsValidPath ''/data'' ''docs/../../etc/passwd'' = Inl PathEscapesRoot
   \<and> inside_root ''/data'' (Join [''/data'', Clean ''docs/../a.txt''])
   \<and> fullPath ''/data'' ''docs/../a.txt'' = Inr ''/data/a.txt''
   \<and> prefix ''/data'' ''/data/a.txt''
   \<and> IsValidPath ''/data'' ''docs/../a.txt'' = Inr True"
proof -
  have h: "valid_root ''/data''" by code_simp
  have o: "\<not> inside_root ''/data'' (Join [''/data'', Clean ''docs/../../etc/passwd''])"
    by code_simp
  have i: "inside_root ''/data'' (Join [''/data'', Clean ''docs/../a.txt''])"
    by code_simp
  have j: "Join [''/data'', Clean ''docs/../a.txt''] = ''/data/a.txt''"
    by code_simp
  have ne: "''docs/../a.txt'' \<noteq> []" by simp
  from path_confinement [OF h, of "''docs/../../etc/passwd''"] o
  have 1: "fullPath ''/data'' ''docs/../../etc/passwd'' = Inl PathEscapesRoot
      \<and> IsValidPath ''/data'' ''docs/../../etc/passwd'' = Inl PathEscapesRoot"
    by blast
  from path_confinement [OF h, of "''docs/../a.txt''"] i ne
  have 2: "fullPath ''/data'' ''docs/../a.txt'' = Inr (Join [''/data'', Clean ''docs/../a.txt''])
      \<and> prefix ''/data'' (Join [''/data'', Clean ''docs/../a.txt''])
      \<and> IsValidPath ''/data'' ''docs/../a.txt'' = Inr True"
    by blast
  from h o i 1 2 show ?thesis unfolding j by blast
qed

subsection \<open>The mutation pipeline\<close>

lemma executeHooks_frame [simp]:
  "executeHooks typ ctx (s\<lparr>files := f\<rparr>) = executeHooks typ ctx s"
  "executeHooks typ ctx (s\<lparr>fs_locks := l\<rparr>) = executeHooks typ ctx s"
  "executeHooks typ ctx (s\<lparr>journal := j\<rparr>) = executeHooks typ ctx s"
  "executeHooks typ ctx (s\<lparr>versionStore := v\<rparr>) = executeHooks typ ctx s"
  "executeHooks typ ctx (s\<lparr>attrStore := a\<rparr>) = executeHooks typ ctx s"
  by (simp_all add: executeHooks_def)

lemma lock_state_upd [simp]:
  "lock_state (m(k \<mapsto> st)) k' = (if k' = k then st else lock_state m k')"
  by (simp add: lock_state_def)

lemma with_Lock_free:
  assumes "lock_state (fs_locks s) k = Unlocked"
  shows "with_Lock k body s =
     (case body (s\<lparr>fs_locks := (fs_locks s)(k \<mapsto> WriteHeld)\<rparr>) of
        (Deadlock, s') \<Rightarrow> (Deadlock, s')
      | (r, s') \<Rightarrow> (r, s'\<lparr>fs_locks := (fs_locks s')(k \<mapsto> Unlocked)\<rparr>))"
  using assms by (simp add: with_Lock_def rw_Lock_def rw_Unlock_def split: prod.splits result.splits)

lemma with_Lock_held:
  assumes "lock_state (fs_locks s) k \<noteq> Unlocked"
  shows "with_Lock k body s = (Deadlock, s)"
  using assms by (cases "lock_state (fs_locks s) k") (simp_all add: with_Lock_def rw_Lock_def)

lemma with_RLock_write_held:
  assumes "lock_state (fs_locks s) k = WriteHeld"
  shows "with_RLock k body s = (Deadlock, s)"
  using assms by (simp add: with_RLock_def rw_RLock_def)

lemma with_RLock_free:
  assumes "lock_state (fs_locks s) k = Unlocked"
  shows "with_RLock k body s =
     (case body (s\<lparr>fs_locks := (fs_locks s)(k \<mapsto> ReadHeld 1)\<rparr>) of
        (Deadlock, s') \<Rightarrow> (Deadlock, s')
      | (r, s') \<Rightarrow> (r, s'\<lparr>fs_locks := rw_RUnlock (fs_locks s') k\<rparr>))"
  using assms by (simp add: with_RLock_def rw_RLock_def split: prod.splits result.splits)

lemma ReadFile_write_held:
  assumes "fullPath (rootPath s) path = Inr full"
    and "lock_state (fs_locks s) (FileLock full) = WriteHeld"
  shows "ReadFile path s = (Deadlock, s)"
  using assms by (simp add: ReadFile_def with_RLock_write_held)

lemma createVersion_write_held:
  assumes "fullPath (rootPath s) path = Inr full"
    and "lock_state (fs_locks s) (FileLock full) = WriteHeld"
  shows "createVersion path e s =
     (if \<not> versioning s then (Err (Msg ''versioning is not enabled''), s)
      else case executeHooks HookTypePre (mk_ctx OpCreateVersion path) s of
             Some err \<Rightarrow> (Err err, s)
           | None \<Rightarrow>
               (case files s full of
                  None \<Rightarrow> (Err (Wrap ''failed to get file info'' (Os ENOENT)), s)
                | Some Directory \<Rightarrow> (Err (Msg ''cannot version a directory''), s)
                | Some (RegularFile c) \<Rightarrow> (Deadlock, s)))"
  using assms
  by (simp add: createVersion_def Let_def bind_def check_def wrap_def ReadFile_write_held
      split: option.splits node.splits)

lemma createVersion_write_held_not_Ok:
  assumes "fullPath (rootPath s) path = Inr full"
    and "lock_state (fs_locks s) (FileLock full) = WriteHeld"
  shows "createVersion path e s = (Deadlock, s) \<or> (\<exists>err. createVersion path e s = (Err err, s))"
  unfolding createVersion_write_held [OF assms]
  by (simp split: option.splits node.splits)






lemma mkdir_chain_existing:
  "\<forall>d\<in>set ds. fs d = Some Directory \<Longrightarrow> mkdir_chain fs ds = Inr fs"
  by (induction ds) auto





text \<open>A write to an existing file with versioning on.\<close>

lemma WriteFileWithMode_versioned:
  assumes fp: "fullPath (rootPath s) path = Inr full"
    and mk: "os_MkdirAll (files s) (Dir full) = Inr made"
    and free: "lock_state (fs_locks s) (FileLock full) = Unlocked"
    and pre: "executeHooks HookTypePre
           ((mk_ctx OpWriteFile path)\<lparr>ctx_Data := data, ctx_Mode := mode\<rparr>) s = None"
    and v: "versioning s" and ex: "made full \<noteq> None"
  shows "WriteFileWithMode path data mode e s =
     (case executeHooks HookTypePre (mk_ctx OpCreateVersion path) s of
        Some err \<Rightarrow>
          (Err (Wrap ''failed to create version'' err),
           s\<lparr>files := made, fs_locks := (fs_locks s)(FileLock full \<mapsto> Unlocked)\<rparr>)
      | None \<Rightarrow>
          (case made full of
             Some (RegularFile c) \<Rightarrow>
               (Deadlock, s\<lparr>files := made, fs_locks := (fs_locks s)(FileLock full \<mapsto> WriteHeld)\<rparr>)
           | _ \<Rightarrow>
               (Err (Wrap ''failed to create version'' (Msg ''cannot version a directory'')),
                s\<lparr>files := made, fs_locks := (fs_locks s)(FileLock full \<mapsto> Unlocked)\<rparr>)))"
proof -
  let ?s1 = "s\<lparr>files := made, fs_locks := (fs_locks s)(FileLock full \<mapsto> WriteHeld)\<rparr>"
  have fp1: "fullPath (rootPath ?s1) path = Inr full" using fp by simp
  have held: "lock_state (fs_locks ?s1) (FileLock full) = WriteHeld" by simp
  have fe: "FileExists path ?s1" using fp ex by (simp add: FileExists_def)
  note cv = createVersion_write_held [OF fp1 held, of e]
  from ex obtain n where n: "made full = Some n" by auto
  show ?thesis
    using fp mk free pre v n fe
    by (cases n; cases "executeHooks HookTypePre (mk_ctx OpCreateVersion path) s")
      (simp_all add: WriteFileWithMode_def with_Lock_free Let_def bind_def check_def wrap_def cv)
qed



lemma NewSimpleFS_data:
  "NewSimpleFS ''/data'' \<lparr>EnableJournaling = True, EnableVersioning = False, MaxVersions = 2\<rparr>
     Map.empty = Inr data_fs"
proof -
  have c: "Clean ''/data'' = ''/data''" by code_simp
  have p: "path_chain ''/data'' = [''/'', ''/data'']" by code_simp
  show ?thesis
    by (simp add: NewSimpleFS_def os_MkdirAll_def c p data_fs_def)
qed














lemma hooks_pass_execute [simp]:
  "hooks_pass s \<Longrightarrow> executeHooks typ ctx s = None"
  by (simp add: hooks_pass_def executeHooks_def)

lemma hooks_pass_frame [simp]:
  "hooks_pass (s\<lparr>files := f\<rparr>) = hooks_pass s"
  "hooks_pass (s\<lparr>fs_locks := l\<rparr>) = hooks_pass s"
  "hooks_pass (s\<lparr>journal := j\<rparr>) = hooks_pass s"
  by (simp_all add: hooks_pass_def)

lemma fst_with_Lock_Deadlock:
  "fst (with_Lock k body s) = Deadlock \<longleftrightarrow>
     lock_state (fs_locks s) k \<noteq> Unlocked
     \<or> fst (body (s\<lparr>fs_locks := (fs_locks s)(k \<mapsto> WriteHeld)\<rparr>)) = Deadlock"
proof (cases "lock_state (fs_locks s) k = Unlocked")
  case True
  show ?thesis
    using True by (simp add: with_Lock_free split: prod.splits result.splits)
next
  case False
  then show ?thesis by (simp add: with_Lock_held)
qed

lemma parents_exist_MkdirAll:
  "parents_exist s full \<Longrightarrow> os_MkdirAll (files s) (Dir full) = Inr (files s)"
  by (simp add: parents_exist_def os_MkdirAll_def mkdir_chain_existing)

lemma WriteFileWithMode_deadlock:
  assumes v: "versioning s"
    and fp: "fullPath (rootPath s) path = Inr full"
    and rf: "files s full = Some (RegularFile c)"
    and par: "parents_exist s full"
    and free: "all_unlocked s"
    and hp: "hooks_pass s"
  shows "WriteFileWithMode path data mode e s =
     (Deadlock, s\<lparr>fs_locks := (fs_locks s)(FileLock full \<mapsto> WriteHeld)\<rparr>)"
proof -
  have mk: "os_MkdirAll (files s) (Dir full) = Inr (files s)"
    by (rule parents_exist_MkdirAll [OF par])
  have fr: "lock_state (fs_locks s) (FileLock full) = Unlocked"
    using free by (simp add: all_unlocked_def)
  have pre: "executeHooks HookTypePre
           ((mk_ctx OpWriteFile path)\<lparr>ctx_Data := data, ctx_Mode := mode\<rparr>) s = None"
    using hp by simp
  have ex: "files s full \<noteq> None" using rf by simp
  from WriteFileWithMode_versioned [OF fp mk fr pre v ex, of e] show ?thesis
    using hp rf by simp
qed

lemma DeleteFile_deadlock:
  assumes v: "versioning s"
    and fp: "fullPath (rootPath s) path = Inr full"
    and rf: "files s full = Some (RegularFile c)"
    and free: "all_unlocked s"
    and hp: "hooks_pass s"
  shows "fst (DeleteFile path e s) = Deadlock"
proof -
  let ?s2 = "s\<lparr>fs_locks := (fs_locks s)(FileLock full \<mapsto> WriteHeld,
                                        FileLock (Dir full) \<mapsto> WriteHeld)\<rparr>"
  have fp2: "fullPath (rootPath ?s2) path = Inr full" using fp by simp
  have held: "lock_state (fs_locks ?s2) (FileLock full) = WriteHeld" by simp
  have cv: "createVersion path e ?s2 = (Deadlock, ?s2)"
    unfolding createVersion_write_held [OF fp2 held] using v hp rf by simp
  have body: "fst (bind (check (executeHooks HookTypePre (mk_ctx OpDeleteFile path) ?s2) ?s2)
      (\<lambda>u s. bind (if versioning s
                    then wrap ''failed to create version before deletion'' (createVersion path e s)
                    else (Ok (), s)) k)) = Deadlock" for k :: "unit \<Rightarrow> SimpleFS \<Rightarrow> unit result \<times> SimpleFS"
    using hp v cv by (simp add: bind_def check_def wrap_def)
  show ?thesis
    using fp rf free body
    by (simp add: DeleteFile_def fst_with_Lock_Deadlock all_unlocked_def Let_def)
qed


lemma GetAllAttributes_pass:
  assumes hp: "hooks_pass s"
    and free: "lock_state (fs_locks s) (AttrLock path) = Unlocked"
  shows "\<exists>attrs L. GetAllAttributes path s = (Ok attrs, s\<lparr>fs_locks := L\<rparr>)
     \<and> (\<forall>full. lock_state L (FileLock full) = lock_state (fs_locks s) (FileLock full))"
proof (cases "attrStore s path")
  case None
  then have "GetAllAttributes path s = (Ok [], s\<lparr>fs_locks := fs_locks s\<rparr>)"
    by (simp add: GetAllAttributes_def)
  then show ?thesis by blast
next
  case (Some stored)
  then have "GetAllAttributes path s =
      (Ok stored, s\<lparr>fs_locks := (fs_locks s)(AttrLock path \<mapsto> Unlocked)\<rparr>)"
    using hp free
    by (simp add: GetAllAttributes_def with_RLock_free Let_def bind_def check_def rw_RUnlock_def)
  moreover have "\<forall>full. lock_state ((fs_locks s)(AttrLock path \<mapsto> Unlocked)) (FileLock full) =
      lock_state (fs_locks s) (FileLock full)"
    by simp
  ultimately show ?thesis by blast
qed

lemma log_entry_ready:
  assumes "journal s = Some j" and "j_file j" and "\<not> j_mu j"
  shows "log_entry msg entry s =
     (Ok (), s\<lparr>journal := Some (j\<lparr>j_entries := j_entries j @ [entry]\<rparr>)\<rparr>)"
  using assms by (simp add: log_entry_def Journal_Log_def wrap_def)

lemma MoveFile_body_deadlock:
  assumes jr: "journal s = Some j" "j_file j" "\<not> j_mu j"
    and fps: "fullPath (rootPath s) src = Inr srcPath"
    and fpd: "fullPath (rootPath s) dst = Inr dstPath"
    and mk: "os_MkdirAll (files s) (Dir dstPath) = Inr made"
    and nd: "\<not> (versioning s \<and> files s dstPath = Some Directory)"
    and hp: "hooks_pass s"
    and hs: "lock_state (fs_locks s) (FileLock srcPath) = WriteHeld"
    and hd: "lock_state (fs_locks s) (FileLock dstPath) = WriteHeld"
    and fa: "lock_state (fs_locks s) (AttrLock src) = Unlocked"
  shows "fst (bind (check (executeHooks HookTypePre ctx s) s) (\<lambda>u s.
           bind (if versioning s \<and> FileExists dst s
                 then wrap ''failed to create version of destination before move''
                        (createVersion dst e s)
                 else (Ok (), s)) (\<lambda>u s.
             case os_MkdirAll (files s) (Dir dstPath) of
               Inl oe \<Rightarrow> (Err (Os oe), s)
             | Inr made \<Rightarrow>
                 (case GetAllAttributes src (s\<lparr>files := made\<rparr>) of
                    (Deadlock, s') \<Rightarrow> (Deadlock, s')
                  | (r, s) \<Rightarrow>
                      bind (case journal s of
                              None \<Rightarrow> (Ok (), s)
                            | Some j \<Rightarrow>
                                bind (log_entry ''failed to log move source deletion''
                                        \<lparr>je_Operation = ''delete'', je_Path = src,
                                         je_Data = [], je_Timestamp = env_now e,
                                         je_Attributes = []\<rparr> s) (\<lambda>u s.
                                bind (wrap ''failed to read source file for move''
                                        (ReadFile src s)) (\<lambda>data s.
                                  log_entry ''failed to log move destination write''
                                    \<lparr>je_Operation = ''write'', je_Path = dst,
                                     je_Data = data, je_Timestamp = env_now e,
                                     je_Attributes = (case r of Ok a \<Rightarrow> a | _ \<Rightarrow> [])\<rparr> s)))
                        (k r))))) = Deadlock"
proof (cases "versioning s \<and> FileExists dst s")
  case True
  then obtain n where n: "files s dstPath = Some n"
    using fpd by (auto simp: FileExists_def)
  with nd True obtain c where c: "files s dstPath = Some (RegularFile c)"
    by (cases n) auto
  have "createVersion dst e s = (Deadlock, s)"
    unfolding createVersion_write_held [OF fpd hd] using True hp c by simp
  then show ?thesis
    using True hp by (simp add: bind_def check_def wrap_def)
next
  case False
  let ?s1 = "s\<lparr>files := made\<rparr>"
  have hp1: "hooks_pass ?s1" using hp by simp
  have fa1: "lock_state (fs_locks ?s1) (AttrLock src) = Unlocked" using fa by simp
  from GetAllAttributes_pass [OF hp1 fa1] obtain attrs L where
    g: "GetAllAttributes src ?s1 = (Ok attrs, ?s1\<lparr>fs_locks := L\<rparr>)"
    and L: "\<forall>full. lock_state L (FileLock full) = lock_state (fs_locks ?s1) (FileLock full)"
    by blast
  let ?s2 = "?s1\<lparr>fs_locks := L\<rparr>"
  have j2: "journal ?s2 = Some j" using jr by simp
  let ?s3 = "?s2\<lparr>journal := Some (j\<lparr>j_entries := j_entries j @
      [\<lparr>je_Operation = ''delete'', je_Path = src, je_Data = [], je_Timestamp = env_now e,
        je_Attributes = []\<rparr>]\<rparr>)\<rparr>"
  have le: "log_entry ''failed to log move source deletion''
      \<lparr>je_Operation = ''delete'', je_Path = src, je_Data = [], je_Timestamp = env_now e,
       je_Attributes = []\<rparr> ?s2 = (Ok (), ?s3)"
    by (rule log_entry_ready [OF j2 jr(2,3)])
  have fp3: "fullPath (rootPath ?s3) src = Inr srcPath" using fps by simp
  have h3: "lock_state (fs_locks ?s3) (FileLock srcPath) = WriteHeld"
    using L hs by simp
  have rd: "ReadFile src ?s3 = (Deadlock, ?s3)"
    by (rule ReadFile_write_held [OF fp3 h3])
  have nv: "(versioning s \<and> FileExists dst s) = False" using False by simp
  show ?thesis
    using hp mk g j2 le rd
    by (simp add: nv bind_def check_def wrap_def Let_def)
qed

lemma fst_with_Lock_DeadlockI:
  assumes "lock_state (fs_locks s) k = Unlocked \<Longrightarrow>
     fst (body (s\<lparr>fs_locks := (fs_locks s)(k \<mapsto> WriteHeld)\<rparr>)) = Deadlock"
  shows "fst (with_Lock k body s) = Deadlock"
  using assms by (auto simp: fst_with_Lock_Deadlock)

lemma MoveFile_deadlock:
  assumes jr: "journal_ready s"
    and fps: "fullPath (rootPath s) src = Inr srcPath"
    and fpd: "fullPath (rootPath s) dst = Inr dstPath"
    and par: "parents_exist s dstPath"
    and nd: "\<not> (versioning s \<and> files s dstPath = Some Directory)"
    and free: "all_unlocked s"
    and hp: "hooks_pass s"
  shows "fst (MoveFile src dst e s) = Deadlock"
proof -
  from jr obtain j where j: "journal s = Some j" "j_file j" "\<not> j_mu j"
    by (auto simp: journal_ready_def split: option.splits)
  let ?s1 = "s\<lparr>fs_locks := (fs_locks s)(FileLock srcPath \<mapsto> WriteHeld)\<rparr>"
  let ?s2 = "?s1\<lparr>fs_locks := (fs_locks ?s1)(FileLock dstPath \<mapsto> WriteHeld)\<rparr>"
  let ?s3 = "?s2\<lparr>fs_locks := (fs_locks ?s2)(FileLock (Dir srcPath) \<mapsto> WriteHeld)\<rparr>"
  let ?s4 = "?s3\<lparr>fs_locks := (fs_locks ?s3)(FileLock (Dir dstPath) \<mapsto> WriteHeld)\<rparr>"
  have j4: "journal ?s4 = Some j" using j by simp
  have fps4: "fullPath (rootPath ?s4) src = Inr srcPath" using fps by simp
  have fpd4: "fullPath (rootPath ?s4) dst = Inr dstPath" using fpd by simp
  have mk: "os_MkdirAll (files ?s4) (Dir dstPath) = Inr (files s)"
    using parents_exist_MkdirAll [OF par] by simp
  have nd4: "\<not> (versioning ?s4 \<and> files ?s4 dstPath = Some Directory)"
    using nd by simp
  have hp4: "hooks_pass ?s4" using hp by simp
  have hs: "lock_state (fs_locks ?s4) (FileLock srcPath) = WriteHeld" by simp
  have hd: "lock_state (fs_locks ?s4) (FileLock dstPath) = WriteHeld" by simp
  have fa: "lock_state (fs_locks ?s4) (AttrLock src) = Unlocked"
    using free by (simp add: all_unlocked_def)
  note body = MoveFile_body_deadlock [OF j4 j(2,3) fps4 fpd4 mk nd4 hp4 hs hd fa]
  have "fst (with_Lock (FileLock srcPath)
              (with_Lock (FileLock dstPath)
                (with_Lock (FileLock (Dir srcPath))
                  (with_Lock (FileLock (Dir dstPath)) B))) s) = Deadlock"
    if "fst (B ?s4) = Deadlock" for B :: "SimpleFS \<Rightarrow> unit result \<times> SimpleFS"
    by (intro fst_with_Lock_DeadlockI) (use that in simp)
  note nested = this
  show ?thesis
    apply (simp only: MoveFile_def fps fpd sum.case)
    apply (rule nested)
    apply (simp only: Let_def)
    apply (rule body)
    done
qed

subsection \<open>Operations that block on their own lock\<close>

text \<open>
  Claim C10. In a facade whose locks are all free and whose hooks return no error: with
  versioning enabled and the target an existing regular file, \<^verbatim>\<open>WriteFile\<close> takes the
  write lock of the path and, inside \<^verbatim>\<open>createVersion\<close>, \<^verbatim>\<open>ReadFile\<close> on the same path
  asks for a read lock on the same mutex and blocks, so the write never returns and the
  state it hangs in holds the write lock; \<^verbatim>\<open>DeleteFile\<close> blocks in the same way. With
  journaling enabled, \<^verbatim>\<open>MoveFile\<close> reads the source while it holds the write lock of
  the source and never returns.
\<close>

theorem self_deadlock:
  assumes "all_unlocked s" and "hooks_pass s"
  shows "(versioning s \<and> fullPath (rootPath s) path = Inr full
            \<and> files s full = Some (RegularFile c) \<and> parents_exist s full \<longrightarrow>
          WriteFileWithMode path data mode e s =
            (Deadlock, s\<lparr>fs_locks := (fs_locks s)(FileLock full \<mapsto> WriteHeld)\<rparr>)
          \<and> ReadFile path (s\<lparr>fs_locks := (fs_locks s)(FileLock full \<mapsto> WriteHeld)\<rparr>) =
            (Deadlock, s\<lparr>fs_locks := (fs_locks s)(FileLock full \<mapsto> WriteHeld)\<rparr>)
          \<and> fst (DeleteFile path e s) = Deadlock)
     \<and> (journal_ready s \<and> fullPath (rootPath s) src = Inr srcPath
            \<and> fullPath (rootPath s) dst = Inr dstPath \<and> parents_exist s dstPath
            \<and> \<not> (versioning s \<and> files s dstPath = Some Directory) \<longrightarrow>
          fst (MoveFile src dst e s) = Deadlock)"
proof (intro conjI impI)
  assume a: "versioning s \<and> fullPath (rootPath s) path = Inr full
            \<and> files s full = Some (RegularFile c) \<and> parents_exist s full"
  show "WriteFileWithMode path data mode e s =
            (Deadlock, s\<lparr>fs_locks := (fs_locks s)(FileLock full \<mapsto> WriteHeld)\<rparr>)"
    using a assms by (intro WriteFileWithMode_deadlock) auto
  show "ReadFile path (s\<lparr>fs_locks := (fs_locks s)(FileLock full \<mapsto> WriteHeld)\<rparr>) =
            (Deadlock, s\<lparr>fs_locks := (fs_locks s)(FileLock full \<mapsto> WriteHeld)\<rparr>)"
    using a by (intro ReadFile_write_held) auto
  show "fst (DeleteFile path e s) = Deadlock"
    using a assms by (intro DeleteFile_deadlock) auto
next
  assume "journal_ready s \<and> fullPath (rootPath s) src = Inr srcPath
            \<and> fullPath (rootPath s) dst = Inr dstPath \<and> parents_exist s dstPath
            \<and> \<not> (versioning s \<and> files s dstPath = Some Directory)"
  then show "fst (MoveFile src dst e s) = Deadlock"
    using assms by (intro MoveFile_deadlock) auto
qed

lemma versioned_fs_facts:
  "all_unlocked versioned_fs" "hooks_pass versioned_fs" "versioning versioned_fs"
  "journal_ready versioned_fs"
  "files versioned_fs ''/data/a.txt'' = Some (RegularFile ''v1'')"
  "files versioned_fs ''/data/b.txt'' = None"
  "rootPath versioned_fs = ''/data''"
  by (simp_all add: versioned_fs_def data_fs_def all_unlocked_def hooks_pass_def lock_state_def
      journal_ready_def)

theorem self_deadlock_witness:
  "fst (WriteFile ''a.txt'' ''v2'' (at_time 2 ''u2'') versioned_fs) = Deadlock
   \<and> fst (DeleteFile ''a.txt'' (at_time 2 ''u2'') versioned_fs) = Deadlock
   \<and> fst (MoveFile ''a.txt'' ''b.txt'' (at_time 2 ''u2'') versioned_fs) = Deadlock"
proof -
  have fa: "fullPath (rootPath versioned_fs) ''a.txt'' = Inr ''/data/a.txt''"
  proof -
    have "fullPath ''/data'' ''a.txt'' = Inr ''/data/a.txt''" by code_simp
    then show ?thesis by (simp add: versioned_fs_facts)
  qed
  have fb: "fullPath (rootPath versioned_fs) ''b.txt'' = Inr ''/data/b.txt''"
  proof -
    have "fullPath ''/data'' ''b.txt'' = Inr ''/data/b.txt''" by code_simp
    then show ?thesis by (simp add: versioned_fs_facts)
  qed
  have pa: "parents_exist versioned_fs ''/data/a.txt''"
  proof -
    have "path_chain (Dir ''/data/a.txt'') = [''/'', ''/data'']" by code_simp
    then show ?thesis by (simp add: parents_exist_def versioned_fs_def data_fs_def)
  qed
  have pb: "parents_exist versioned_fs ''/data/b.txt''"
  proof -
    have "path_chain (Dir ''/data/b.txt'') = [''/'', ''/data'']" by code_simp
    then show ?thesis by (simp add: parents_exist_def versioned_fs_def data_fs_def)
  qed
  from self_deadlock [OF versioned_fs_facts(1,2), of "''a.txt''" "''/data/a.txt''" "''v1''"
      "''v2''" 420 "at_time 2 ''u2''" "''a.txt''" "''/data/a.txt''" "''b.txt''" "''/data/b.txt''"]
    fa fb pa pb versioned_fs_facts
  show ?thesis by (simp add: WriteFile_def)
qed

subsection \<open>Recovery and versioned writes on concrete states\<close>

text \<open>
  Claim C2, at a failing input. The journal holds the write of \<^verbatim>\<open>a.txt\<close> that a crash
  kept from reaching the file. \<^verbatim>\<open>Recover\<close> takes the journal mutex and replays the
  entry through \<^verbatim>\<open>WriteFileWithMode\<close>, which logs the write and so asks for the same
  mutex: recovery never returns, and the file is not restored.
\<close>

theorem recover_never_returns:
  "fst (Recover (\<lambda>i. at_time 5 ''u5'') crashed_fs) = Deadlock
   \<and> files (snd (Recover (\<lambda>i. at_time 5 ''u5'') crashed_fs)) ''/data/a.txt'' = None
   \<and> map_option j_mu (journal (snd (Recover (\<lambda>i. at_time 5 ''u5'') crashed_fs))) = Some True"
  by code_simp

text \<open>
  Claim C4, at a failing input. With versioning enabled, the first write to the existing
  \<^verbatim>\<open>a.txt\<close> never returns: no version is stored and the file keeps its content, so no
  sequence of successful versioned writes exists.
\<close>

theorem versioned_write_never_returns:
  "fst (WriteFile ''a.txt'' ''v2'' (at_time 2 ''id2'') versioned_fs) = Deadlock
   \<and> versionStore (snd (WriteFile ''a.txt'' ''v2'' (at_time 2 ''id2'') versioned_fs)) ''a.txt'' = None
   \<and> files (snd (WriteFile ''a.txt'' ''v2'' (at_time 2 ''id2'') versioned_fs)) ''/data/a.txt''
       = Some (RegularFile ''v1'')"
  by code_simp



subsection \<open>Retention\<close>

lemma DeleteVersion_present:
  assumes "versioning s" and "versionStore s path = Some stored" and "map_of stored vid = Some v"
  shows "DeleteVersion path vid s =
     (Ok (), s\<lparr>versionStore := (versionStore s)(path \<mapsto> AList.delete vid stored)\<rparr>)"
  using assms by (simp add: DeleteVersion_def)

lemma length_delete_present:
  "distinct (map fst xs) \<Longrightarrow> k \<in> fst ` set xs \<Longrightarrow>
     Suc (length (AList.delete k xs)) = length xs"
proof (induction xs)
  case Nil
  then show ?case by simp
next
  case (Cons a xs)
  show ?case
  proof (cases "fst a = k")
    case True
    then have "k \<notin> fst ` set xs" using Cons.prems(1) by auto
    then have "AList.delete k xs = xs"
      unfolding AList.delete_eq by (intro filter_True) (auto simp: image_iff)
    then show ?thesis using True by simp
  next
    case False
    then have "k \<in> fst ` set xs" using Cons.prems(2) by auto
    then show ?thesis using Cons.IH Cons.prems(1) False by simp
  qed
qed

lemma prune_loop_deletes:
  assumes "versioning s" and "versionStore s path = Some stored"
    and "distinct (map fst stored)"
    and "distinct (map VersionID victims)"
    and "VersionID ` set victims \<subseteq> fst ` set stored"
  shows "\<exists>stored'. prune_loop path victims s =
            (Ok (), s\<lparr>versionStore := (versionStore s)(path \<mapsto> stored')\<rparr>)
     \<and> stored' = filter (\<lambda>kv. fst kv \<notin> VersionID ` set victims) stored
     \<and> length stored' + length victims = length stored"
  using assms
proof (induction victims arbitrary: s stored)
  case Nil
  have "(versionStore s)(path \<mapsto> stored) = versionStore s"
    using Nil.prems(2) by (auto simp: fun_eq_iff)
  then have "s\<lparr>versionStore := (versionStore s)(path \<mapsto> stored)\<rparr> = s"
    by simp
  then have r: "prune_loop path [] s =
      (Ok (), s\<lparr>versionStore := (versionStore s)(path \<mapsto> stored)\<rparr>)"
    by (simp only: prune_loop.simps)
  have f: "stored = filter (\<lambda>kv. fst kv \<notin> VersionID ` set ([] :: VersionInfo list)) stored"
    by simp
  have l: "length stored + length ([] :: VersionInfo list) = length stored" by simp
  from r f l show ?case by blast
next
  case (Cons v victims)
  let ?id = "VersionID v"
  have inn: "?id \<in> fst ` set stored" using Cons.prems(5) by simp
  then obtain w where w: "map_of stored ?id = Some w"
    by (metis map_of_eq_None_iff not_Some_eq)
  let ?st1 = "AList.delete ?id stored"
  let ?s1 = "s\<lparr>versionStore := (versionStore s)(path \<mapsto> ?st1)\<rparr>"
  have d: "DeleteVersion path ?id s = (Ok (), ?s1)"
    by (rule DeleteVersion_present [OF Cons.prems(1,2) w])
  have v1: "versioning ?s1" using Cons.prems(1) by simp
  have vs1: "versionStore ?s1 path = Some ?st1" by simp
  have d1: "distinct (map fst ?st1)" using Cons.prems(3) by (simp add: distinct_delete)
  have dv: "distinct (map VersionID victims)" using Cons.prems(4) by simp
  have nin: "?id \<notin> VersionID ` set victims" using Cons.prems(4) by auto
  have sub: "VersionID ` set victims \<subseteq> fst ` set ?st1"
  proof
    fix k assume k: "k \<in> VersionID ` set victims"
    then have "k \<noteq> ?id" using nin by blast
    moreover have "k \<in> fst ` set stored" using k Cons.prems(5) by auto
    ultimately have "k \<in> set (removeAll ?id (map fst stored))"
      by simp
    then have "k \<in> set (map fst ?st1)"
      by (simp only: AList.delete_keys)
    then show "k \<in> fst ` set ?st1" by simp
  qed
  from Cons.IH [OF v1 vs1 d1 dv sub] obtain stored' where
    p: "prune_loop path victims ?s1 =
          (Ok (), ?s1\<lparr>versionStore := (versionStore ?s1)(path \<mapsto> stored')\<rparr>)"
    and f: "stored' = filter (\<lambda>kv. fst kv \<notin> VersionID ` set victims) ?st1"
    and l: "length stored' + length victims = length ?st1"
    by blast
  have r: "prune_loop path (v # victims) s =
      (Ok (), s\<lparr>versionStore := (versionStore s)(path \<mapsto> stored')\<rparr>)"
    using d p by (simp add: bind_def)
  have f': "stored' = filter (\<lambda>kv. fst kv \<notin> VersionID ` set (v # victims)) stored"
    unfolding f AList.delete_eq filter_filter by (rule filter_cong) auto
  have l': "length stored' + length (v # victims) = length stored"
    using l length_delete_present [OF Cons.prems(3) inn] by simp
  from r f' l' show ?case by blast
qed


lemma store_ok_ids:
  assumes "store_ok stored"
  shows "map VersionID (map (\<lambda>kv. fst (snd kv)) stored) = map fst stored"
  using assms by (simp add: store_ok_def)

lemma ListVersions_pass:
  assumes "versioning s" and "versionStore s path = Some stored"
    and "executeHooks HookTypePre (mk_ctx OpListVersions path) s = None"
    and "executeHooks HookTypePost (mk_ctx OpListVersions path) s = None"
  shows "ListVersions path s =
     (Ok \<lparr>vl_Path = path,
          Versions = sort_key (\<lambda>v. - v_CreatedAt v) (map (\<lambda>kv. fst (snd kv)) stored)\<rparr>, s)"
  using assms by (simp add: ListVersions_def Let_def bind_def check_def)

text \<open>
  After a prune cycle the version directory holds at most the configured maximum, the
  retained versions are among the earlier ones, and no deleted version is newer than a
  retained one.
\<close>

lemma pruneVersions_bound:
  assumes v: "versioning s" and st: "versionStore s path = Some stored"
    and ok: "store_ok stored" and K: "0 < maxVersions s"
    and h1: "executeHooks HookTypePre (mk_ctx OpListVersions path) s = None"
    and h2: "executeHooks HookTypePost (mk_ctx OpListVersions path) s = None"
  shows "\<exists>stored'. pruneVersions path s =
            (Ok (), s\<lparr>versionStore := (versionStore s)(path \<mapsto> stored')\<rparr>)
     \<and> length stored' = min (length stored) (nat (maxVersions s))
     \<and> set stored' \<subseteq> set stored \<and> store_ok stored'
     \<and> (\<forall>kept\<in>set stored'. \<forall>gone\<in>set stored - set stored'.
           v_CreatedAt (fst (snd gone)) \<le> v_CreatedAt (fst (snd kept)))"
proof -
  define infos where "infos = map (\<lambda>kv. fst (snd kv)) stored"
  define versions where "versions = sort_key (\<lambda>v. - v_CreatedAt v) infos"
  define k where "k = nat (maxVersions s)"
  have lv: "ListVersions path s = (Ok \<lparr>vl_Path = path, Versions = versions\<rparr>, s)"
    unfolding versions_def infos_def by (rule ListVersions_pass [OF v st h1 h2])
  have len: "length versions = length stored" by (simp add: versions_def infos_def)
  have sv: "set versions = set infos" by (simp add: versions_def)
  have mem: "\<And>kv. kv \<in> set stored \<Longrightarrow> fst (snd kv) \<in> set infos"
    by (simp add: infos_def)
  have idm: "\<And>kv. kv \<in> set stored \<Longrightarrow> VersionID (fst (snd kv)) = fst kv"
    using ok by (simp add: store_ok_def)
  show ?thesis
  proof (cases "int (length stored) \<le> maxVersions s")
    case True
    have "(versionStore s)(path \<mapsto> stored) = versionStore s"
      using st by (auto simp: fun_eq_iff)
    then have same: "s\<lparr>versionStore := (versionStore s)(path \<mapsto> stored)\<rparr> = s" by simp
    have "pruneVersions path s = (Ok (), s)"
      using lv True len by (simp add: pruneVersions_def bind_def)
    then have r: "pruneVersions path s =
        (Ok (), s\<lparr>versionStore := (versionStore s)(path \<mapsto> stored)\<rparr>)"
      using same by simp
    have l: "length stored = min (length stored) (nat (maxVersions s))" using True by simp
    have e: "\<forall>kept\<in>set stored. \<forall>gone\<in>set stored - set stored.
           v_CreatedAt (fst (snd gone)) \<le> v_CreatedAt (fst (snd kept))"
      by simp
    from r l ok e show ?thesis by blast
  next
    case False
    then have big: "k < length stored" using K by (simp add: k_def)
    define victims where "victims = rev (drop k versions)"
    have td: "length stored - nat (int (length stored) - maxVersions s) = k"
      using big K by (simp add: k_def)
    have pr: "pruneVersions path s = prune_loop path victims s"
      using lv False td len
      by (simp add: pruneVersions_def bind_def Let_def victims_def)
    have dk: "distinct (map fst stored)" using ok by (simp add: store_ok_def)
    have mi: "map VersionID infos = map fst stored"
      unfolding infos_def by (rule store_ok_ids [OF ok])
    have di: "distinct (map VersionID infos)" using dk by (simp only: mi)
    have inj: "inj_on VersionID (set infos)" and dinf: "distinct infos"
      using di by (simp_all only: distinct_map)
    have dvers: "distinct versions" using dinf by (simp add: versions_def)
    have dvic: "distinct victims" using dvers by (simp add: victims_def)
    have vsub: "set victims \<subseteq> set infos"
      using set_drop_subset [of k versions] by (simp add: victims_def sv)
    have "inj_on VersionID (set victims)" using inj vsub by (rule inj_on_subset)
    then have dv: "distinct (map VersionID victims)"
      using dvic by (simp only: distinct_map simp_thms)
    have ids: "VersionID ` set infos = fst ` set stored"
      using mi by (metis image_set)
    have sub: "VersionID ` set victims \<subseteq> fst ` set stored"
      using ids vsub by blast
    from prune_loop_deletes [OF v st dk dv sub] obtain stored' where
      p: "prune_loop path victims s =
            (Ok (), s\<lparr>versionStore := (versionStore s)(path \<mapsto> stored')\<rparr>)"
      and f: "stored' = filter (\<lambda>kv. fst kv \<notin> VersionID ` set victims) stored"
      and l: "length stored' + length victims = length stored"
      by blast
    have "length victims = length stored - k" by (simp add: victims_def len)
    then have l': "length stored' = min (length stored) (nat (maxVersions s))"
      using l big by (simp add: k_def)
    have ss: "set stored' \<subseteq> set stored" using f by auto
    have ok': "store_ok stored'"
      using ok f by (auto simp: store_ok_def distinct_map_filter)
    have "sorted (map (\<lambda>v. - v_CreatedAt v) versions)"
      unfolding versions_def by (rule sorted_sort_key)
    then have "sorted (map (\<lambda>v. - v_CreatedAt v) (take k versions)
                   @ map (\<lambda>v. - v_CreatedAt v) (drop k versions))"
      by (metis append_take_drop_id map_append)
    then have srt: "\<forall>x\<in>set (take k versions). \<forall>y\<in>set (drop k versions).
                      - v_CreatedAt x \<le> - v_CreatedAt y"
      by (simp only: sorted_append set_map) blast
    have newest: "\<forall>kept\<in>set stored'. \<forall>gone\<in>set stored - set stored'.
           v_CreatedAt (fst (snd gone)) \<le> v_CreatedAt (fst (snd kept))"
    proof (intro ballI)
      fix kept gone
      assume kept: "kept \<in> set stored'" and gone: "gone \<in> set stored - set stored'"
      have ks: "kept \<in> set stored" using kept ss by blast
      have kin: "fst (snd kept) \<in> set infos" using ks by (rule mem)
      have kid: "VersionID (fst (snd kept)) = fst kept" using ks by (rule idm)
      have "fst kept \<notin> VersionID ` set victims" using kept f by simp
      then have "fst (snd kept) \<notin> set victims" using kid by (metis image_eqI)
      then have nd: "fst (snd kept) \<notin> set (drop k versions)" by (simp add: victims_def)
      have "set versions = set (take k versions) \<union> set (drop k versions)"
        by (metis append_take_drop_id set_append)
      then have kt: "fst (snd kept) \<in> set (take k versions)" using kin sv nd by blast
      have gs: "gone \<in> set stored" using gone by blast
      have gin: "fst (snd gone) \<in> set infos" using gs by (rule mem)
      have gid: "VersionID (fst (snd gone)) = fst gone" using gs by (rule idm)
      have "fst gone \<in> VersionID ` set victims" using gone f by auto
      then obtain w where w: "w \<in> set victims" "VersionID w = fst gone" by auto
      then have "w \<in> set infos" using vsub by blast
      then have "w = fst (snd gone)"
        using inj gin gid w(2) by (simp add: inj_on_def)
      then have gd: "fst (snd gone) \<in> set (drop k versions)"
        using w(1) by (simp add: victims_def)
      from srt kt gd have "- v_CreatedAt (fst (snd kept)) \<le> - v_CreatedAt (fst (snd gone))"
        by blast
      then show "v_CreatedAt (fst (snd gone)) \<le> v_CreatedAt (fst (snd kept))" by simp
    qed
    from pr p l' ss ok' newest show ?thesis by auto
  qed
qed

end
